theory Spec2Isabelle
  imports Complex_Main
begin

section \<open>NoC topology construction (vpr/src/base/setup_noc.cpp)\<close>

text \<open>
  Values of type \<^verbatim>\<open>double\<close> are modelled by the real numbers they denote; the
  rounding of floating-point arithmetic is not part of the embedding.  Exceptions
  (\<^verbatim>\<open>VPR_FATAL_ERROR\<close>) are values: a failing function returns \<open>Inl\<close> of the error
  together with the mutable state as it stands when the exception leaves the function.
\<close>

type_synonym NocRouterId = nat
type_synonym NocLinkId = nat
type_synonym NocTrafficFlowId = nat
type_synonym ClusterBlockId = nat

subsection \<open>Architecture description and device grid\<close>

record t_router =
  router_id :: int
  device_x_position :: real
  device_y_position :: real
  connection_list :: "int list"

record t_noc_inf =
  link_bandwidth :: real
  link_latency :: real
  router_latency :: real
  router_list :: "t_router list"
  noc_router_tile_name :: string

record t_arch =
  noc :: "t_noc_inf option"

record t_grid_tile =
  tile_type_name :: string
  tile_type_width :: int
  tile_type_height :: int
  width_offset :: int
  height_offset :: int

record DeviceGrid =
  grid_width :: nat
  grid_height :: nat
  grid_tile :: "nat \<Rightarrow> nat \<Rightarrow> t_grid_tile"

record t_noc_router_tile_position =
  grid_width_position :: int
  grid_height_position :: int
  tile_centroid_x :: real
  tile_centroid_y :: real

subsection \<open>NoC storage\<close>

record NocRouter =
  router_user_id :: int
  router_grid_position_x :: int
  router_grid_position_y :: int
  router_layer_position :: int

record NocLink =
  source_router :: NocRouterId
  sink_router :: NocRouterId

text \<open>
  Modelled from the spec: class \<^verbatim>\<open>NocStorage\<close> (noc_storage.h/.cpp) is not part of the
  sources at hand.  Following section 3 of the specification it owns all routers and links,
  a handle is the position of the router or link in its table, it translates user ids to
  handles, and it is finalized once built.  The three scalars are the global NoC
  properties the SAT router reads back through the storage object.
\<close>

record NocStorage =
  router_storage :: "NocRouter list"
  link_storage :: "NocLink list"
  built_noc :: bool
  storage_link_bandwidth :: real
  storage_link_latency :: real
  storage_router_latency :: real

definition clear_noc :: "NocStorage \<Rightarrow> NocStorage" where
  "clear_noc m = m\<lparr>router_storage := [], link_storage := [], built_noc := False\<rparr>"

definition add_router :: "NocStorage \<Rightarrow> int \<Rightarrow> int \<Rightarrow> int \<Rightarrow> NocStorage" where
  "add_router m uid x y =
     m\<lparr>router_storage := router_storage m @
        [\<lparr>router_user_id = uid, router_grid_position_x = x,
          router_grid_position_y = y, router_layer_position = 0\<rparr>]\<rparr>"

definition add_link :: "NocStorage \<Rightarrow> NocRouterId \<Rightarrow> NocRouterId \<Rightarrow> NocStorage" where
  "add_link m src snk =
     m\<lparr>link_storage := link_storage m @ [\<lparr>source_router = src, sink_router = snk\<rparr>]\<rparr>"

fun find_user_id :: "NocRouter list \<Rightarrow> int \<Rightarrow> nat \<Rightarrow> NocRouterId option" where
  "find_user_id [] uid k = None"
| "find_user_id (r # rs) uid k =
     (if router_user_id r = uid then Some k else find_user_id rs uid (Suc k))"

definition convert_router_id :: "NocStorage \<Rightarrow> int \<Rightarrow> NocRouterId option" where
  "convert_router_id m uid = find_user_id (router_storage m) uid 0"

definition finished_building_noc :: "NocStorage \<Rightarrow> NocStorage" where
  "finished_building_noc m = m\<lparr>built_noc := True\<rparr>"

text \<open>
  Modelled from the spec: the traffic-flow registry (noc_traffic_flows.h) and the routing
  strategy (turn_model_routing.h) are not part of the sources at hand.  A traffic flow has
  its two endpoint cluster blocks, a bandwidth demand and a latency bound; the registry
  keeps the flows, the route last computed for each flow and the router cluster blocks of
  the netlist.  Of the routing strategy only the list of illegal turns matters to the SAT
  router, and whether the strategy is a turn-model one at all.
\<close>

record t_noc_traffic_flow =
  source_router_cluster_id :: ClusterBlockId
  sink_router_cluster_id :: ClusterBlockId
  traffic_flow_bandwidth :: real
  max_traffic_flow_latency :: real

record NocTrafficFlows =
  list_of_noc_traffic_flows :: "t_noc_traffic_flow list"
  traffic_flow_routes :: "NocLinkId list list"
  router_cluster_in_netlist :: "ClusterBlockId list"

datatype NocRouting =
    TurnModelRouting "(NocLinkId \<times> NocLinkId) list"
  | OtherRouting

record NocContext =
  noc_model :: NocStorage
  noc_link_bandwidth :: real
  noc_link_latency :: real
  noc_router_latency :: real
  noc_traffic_flows_storage :: NocTrafficFlows
  noc_flows_router :: NocRouting

subsection \<open>Errors\<close>

datatype VprError =
    NoTopologyInformation
  | MoreRoutersThanAvailable
  | LessRoutersThanAvailable
  | NoPhysicalRoutersFound
  | SameDistance int "int \<times> int" "int \<times> int"
  | AlreadyAssigned int int "int \<times> int"
  | RouterIdNotFound int
  | IndexOutOfRange

subsection \<open>identify_and_store_noc_router_tile_positions\<close>

definition tile_position_at ::
  "DeviceGrid \<Rightarrow> string \<Rightarrow> nat \<Rightarrow> nat \<Rightarrow> t_noc_router_tile_position list" where
  "tile_position_at device_grid tile_name i j =
     (let curr = grid_tile device_grid i j in
      if tile_name = tile_type_name curr \<and> width_offset curr = 0 \<and> height_offset curr = 0
      then [\<lparr>grid_width_position = int i, grid_height_position = int j,
             tile_centroid_x = real_of_int (tile_type_width curr - 1) / 2 + real i,
             tile_centroid_y = real_of_int (tile_type_height curr - 1) / 2 + real j\<rparr>]
      else [])"

definition identify_and_store_noc_router_tile_positions ::
  "DeviceGrid \<Rightarrow> t_noc_router_tile_position list \<Rightarrow> string \<Rightarrow> t_noc_router_tile_position list" where
  "identify_and_store_noc_router_tile_positions device_grid list_of_noc_router_tiles tile_name =
     list_of_noc_router_tiles @
     concat (map (\<lambda>i. concat (map (\<lambda>j. tile_position_at device_grid tile_name i j)
                                  [0..<grid_height device_grid]))
                 [0..<grid_width device_grid])"

subsection \<open>create_noc_routers\<close>

text \<open>
  The two index constants come from setup_noc.h, which is not among the sources; the
  comments at their uses call them an invalid index and a not-assigned marker.  They are
  fixed to \<open>-1\<close> here; the tie theorem below does not depend on the value.
\<close>

definition INVALID_PHYSICAL_ROUTER_INDEX :: int where
  "INVALID_PHYSICAL_ROUTER_INDEX = -1"

definition PHYSICAL_ROUTER_NOT_ASSIGNED :: int where
  "PHYSICAL_ROUTER_NOT_ASSIGNED = -1"

definition LLONG_MAX :: int where
  "LLONG_MAX = 9223372036854775807"

text \<open>
  Modelled from the spec: \<^verbatim>\<open>vtr::isclose\<close> (vtr_math.h) is not part of the sources at
  hand.  The specification speaks of two tiles at exactly equal distance, so closeness is
  equality here.
\<close>

definition isclose :: "real \<Rightarrow> real \<Rightarrow> bool" where
  "isclose a b = (a = b)"

record t_search =
  shortest_distance :: real
  closest_physical_router :: int
  error_case_physical_router_index_1 :: int
  error_case_physical_router_index_2 :: int

definition euclidean_distance :: "t_router \<Rightarrow> t_noc_router_tile_position \<Rightarrow> real" where
  "euclidean_distance logical_router physical_router =
     sqrt ((abs (tile_centroid_x physical_router - device_x_position logical_router)) ^ 2
         + (abs (tile_centroid_y physical_router - device_y_position logical_router)) ^ 2)"

text \<open>The inner loop over the physical router tiles; the third argument is
  \<^verbatim>\<open>curr_physical_router_index\<close>.\<close>

fun closest_tile_loop ::
  "t_router \<Rightarrow> t_noc_router_tile_position list \<Rightarrow> int \<Rightarrow> t_search \<Rightarrow> t_search" where
  "closest_tile_loop logical_router [] idx s = s"
| "closest_tile_loop logical_router (physical_router # rest) idx s =
     (let curr_calculated_distance = euclidean_distance logical_router physical_router in
      closest_tile_loop logical_router rest (idx + 1)
        (if isclose curr_calculated_distance (shortest_distance s)
         then s\<lparr>error_case_physical_router_index_1 := closest_physical_router s,
                error_case_physical_router_index_2 := idx\<rparr>
         else if curr_calculated_distance < shortest_distance s
         then s\<lparr>shortest_distance := curr_calculated_distance,
                closest_physical_router := idx\<rparr>
         else s))"

definition initial_search :: t_search where
  "initial_search =
     \<lparr>shortest_distance = real_of_int LLONG_MAX, closest_physical_router = 0,
      error_case_physical_router_index_1 = INVALID_PHYSICAL_ROUTER_INDEX,
      error_case_physical_router_index_2 = INVALID_PHYSICAL_ROUTER_INDEX\<rparr>"

definition tile_grid_position :: "t_noc_router_tile_position \<Rightarrow> int \<times> int" where
  "tile_grid_position t = (grid_width_position t, grid_height_position t)"

definition in_range :: "'a list \<Rightarrow> int \<Rightarrow> bool" where
  "in_range xs i = (0 \<le> i \<and> nat i < length xs)"

text \<open>
  One iteration of the loop over the logical routers.  The state is the NoC model and the
  vector \<^verbatim>\<open>router_assignments\<close>.  An index outside a vector is undefined behaviour in the
  source and the error \<open>IndexOutOfRange\<close> here.
\<close>

definition assign_logical_router ::
  "t_noc_router_tile_position list \<Rightarrow> t_router \<Rightarrow> NocStorage \<times> int list
     \<Rightarrow> (VprError \<times> NocStorage) + (NocStorage \<times> int list)" where
  "assign_logical_router tiles logical_router st =
     (let model = fst st; router_assignments = snd st;
          s = closest_tile_loop logical_router tiles 0 initial_search;
          closest = closest_physical_router s;
          e1 = error_case_physical_router_index_1 s;
          e2 = error_case_physical_router_index_2 s
      in
      if e1 = closest then
        (if in_range tiles e1 \<and> in_range tiles e2
         then Inl (SameDistance (router_id logical_router)
                     (tile_grid_position (tiles ! nat e1))
                     (tile_grid_position (tiles ! nat e2)), model)
         else Inl (IndexOutOfRange, model))
      else if \<not> (in_range router_assignments closest \<and> in_range tiles closest)
      then Inl (IndexOutOfRange, model)
      else if router_assignments ! nat closest \<noteq> PHYSICAL_ROUTER_NOT_ASSIGNED then
        Inl (AlreadyAssigned (router_id logical_router) (router_assignments ! nat closest)
               (tile_grid_position (tiles ! nat closest)), model)
      else
        Inr (add_router model (router_id logical_router)
               (grid_width_position (tiles ! nat closest))
               (grid_height_position (tiles ! nat closest)),
             router_assignments[nat closest := router_id logical_router]))"

fun create_noc_routers_loop ::
  "t_router list \<Rightarrow> t_noc_router_tile_position list \<Rightarrow> NocStorage \<times> int list
     \<Rightarrow> (VprError \<times> NocStorage) + (NocStorage \<times> int list)" where
  "create_noc_routers_loop [] tiles st = Inr st"
| "create_noc_routers_loop (logical_router # rest) tiles st =
     (case assign_logical_router tiles logical_router st of
        Inl e \<Rightarrow> Inl e
      | Inr st' \<Rightarrow> create_noc_routers_loop rest tiles st')"

definition create_noc_routers ::
  "t_noc_inf \<Rightarrow> NocStorage \<Rightarrow> t_noc_router_tile_position list
     \<Rightarrow> (VprError \<times> NocStorage) + NocStorage" where
  "create_noc_routers noc_info model tiles =
     (case create_noc_routers_loop (router_list noc_info) tiles
             (model, replicate (length tiles) PHYSICAL_ROUTER_NOT_ASSIGNED) of
        Inl e \<Rightarrow> Inl e
      | Inr st \<Rightarrow> Inr (fst st))"

subsection \<open>create_noc_links, generate_noc, setup_noc\<close>

fun add_connections ::
  "NocStorage \<Rightarrow> NocRouterId \<Rightarrow> int list \<Rightarrow> (VprError \<times> NocStorage) + NocStorage" where
  "add_connections m source [] = Inr m"
| "add_connections m source (conn_router_id # rest) =
     (case convert_router_id m conn_router_id of
        None \<Rightarrow> Inl (RouterIdNotFound conn_router_id, m)
      | Some sink \<Rightarrow> add_connections (add_link m source sink) source rest)"

fun create_noc_links_loop ::
  "t_router list \<Rightarrow> NocStorage \<Rightarrow> (VprError \<times> NocStorage) + NocStorage" where
  "create_noc_links_loop [] m = Inr m"
| "create_noc_links_loop (r # rest) m =
     (case convert_router_id m (router_id r) of
        None \<Rightarrow> Inl (RouterIdNotFound (router_id r), m)
      | Some source \<Rightarrow>
          (case add_connections m source (connection_list r) of
             Inl e \<Rightarrow> Inl e
           | Inr m' \<Rightarrow> create_noc_links_loop rest m'))"

definition create_noc_links :: "t_noc_inf \<Rightarrow> NocStorage \<Rightarrow> (VprError \<times> NocStorage) + NocStorage" where
  "create_noc_links noc_info m = create_noc_links_loop (router_list noc_info) m"

definition generate_noc ::
  "t_noc_inf \<Rightarrow> NocContext \<Rightarrow> t_noc_router_tile_position list
     \<Rightarrow> (VprError \<times> NocContext) + NocContext" where
  "generate_noc noc_info noc_ctx tiles =
     (case create_noc_routers noc_info (clear_noc (noc_model noc_ctx)) tiles of
        Inl (e, m) \<Rightarrow> Inl (e, noc_ctx\<lparr>noc_model := m\<rparr>)
      | Inr m \<Rightarrow>
          (case create_noc_links noc_info m of
             Inl (e, m') \<Rightarrow> Inl (e, noc_ctx\<lparr>noc_model := m'\<rparr>)
           | Inr m' \<Rightarrow> Inr (noc_ctx\<lparr>noc_model := finished_building_noc m'\<rparr>)))"

text \<open>The echo file written at the end of \<^verbatim>\<open>setup_noc\<close> is output only and is left out.\<close>

definition setup_noc :: "t_arch \<Rightarrow> DeviceGrid \<Rightarrow> NocContext \<Rightarrow> (VprError \<times> NocContext) + NocContext" where
  "setup_noc arch device_grid noc_ctx =
     (case noc arch of
        None \<Rightarrow> Inl (NoTopologyInformation, noc_ctx)
      | Some noc_info \<Rightarrow>
          (let list_of_noc_router_tiles =
                 identify_and_store_noc_router_tile_positions device_grid []
                   (noc_router_tile_name noc_info)
           in
           if length list_of_noc_router_tiles < length (router_list noc_info)
           then Inl (MoreRoutersThanAvailable, noc_ctx)
           else if length list_of_noc_router_tiles > length (router_list noc_info)
           then Inl (LessRoutersThanAvailable, noc_ctx)
           else if length list_of_noc_router_tiles = 0
           then Inl (NoPhysicalRoutersFound, noc_ctx)
           else
             (case generate_noc noc_info noc_ctx list_of_noc_router_tiles of
                Inl e \<Rightarrow> Inl e
              | Inr ctx' \<Rightarrow>
                  Inr (ctx'\<lparr>noc_link_bandwidth := link_bandwidth noc_info,
                            noc_link_latency := link_latency noc_info,
                            noc_router_latency := router_latency noc_info\<rparr>))))"

section \<open>SAT-based NoC routing (vpr/src/noc/sat_routing.cpp)\<close>

subsection \<open>The CP-SAT model builder\<close>

text \<open>
  The constraint solver is an external library.  Its model builder is embedded as a
  record of the variables created so far (each with its integer domain), the constraints,
  the solution hints and the objective.  A variable is its index in the model; a
  \<^verbatim>\<open>BoolVar\<close> is a variable with domain \<open>[0, 1]\<close> or the negation of one.  A
  default-constructed \<^verbatim>\<open>BoolVar\<close> belongs to no model and carries the smallest 32-bit
  index.
\<close>

datatype BoolVar = Var int | NegVar int

fun bool_not :: "BoolVar \<Rightarrow> BoolVar" where
  "bool_not (Var i) = NegVar i"
| "bool_not (NegVar i) = Var i"

definition default_BoolVar :: BoolVar where
  "default_BoolVar = Var (- 2147483648)"

type_synonym IntVar = int

record LinearExpr =
  expr_terms :: "(int \<times> int) list"
  expr_offset :: int

definition expr_zero :: LinearExpr where
  "expr_zero = \<lparr>expr_terms = [], expr_offset = 0\<rparr>"

definition expr_const :: "int \<Rightarrow> LinearExpr" where
  "expr_const c = \<lparr>expr_terms = [], expr_offset = c\<rparr>"

definition expr_int_var :: "IntVar \<Rightarrow> LinearExpr" where
  "expr_int_var v = \<lparr>expr_terms = [(v, 1)], expr_offset = 0\<rparr>"

fun expr_term :: "BoolVar \<Rightarrow> int \<Rightarrow> LinearExpr" where
  "expr_term (Var i) k = \<lparr>expr_terms = [(i, k)], expr_offset = 0\<rparr>"
| "expr_term (NegVar i) k = \<lparr>expr_terms = [(i, - k)], expr_offset = k\<rparr>"

definition expr_add :: "LinearExpr \<Rightarrow> LinearExpr \<Rightarrow> LinearExpr" where
  "expr_add a b =
     \<lparr>expr_terms = expr_terms a @ expr_terms b, expr_offset = expr_offset a + expr_offset b\<rparr>"

definition expr_scale :: "int \<Rightarrow> LinearExpr \<Rightarrow> LinearExpr" where
  "expr_scale k a =
     \<lparr>expr_terms = map (\<lambda>(i, c). (i, k * c)) (expr_terms a), expr_offset = k * expr_offset a\<rparr>"

definition expr_sub :: "LinearExpr \<Rightarrow> LinearExpr \<Rightarrow> LinearExpr" where
  "expr_sub a b = expr_add a (expr_scale (- 1) b)"

definition expr_sum :: "BoolVar list \<Rightarrow> LinearExpr" where
  "expr_sum bs = foldl (\<lambda>e b. expr_add e (expr_term b 1)) expr_zero bs"

datatype ConstraintKind =
    BoolOr "BoolVar list"
  | ExactlyOne "BoolVar list"
  | AtMostOne "BoolVar list"
  | Equality LinearExpr LinearExpr
  | LessOrEqual LinearExpr LinearExpr
  | GreaterThan LinearExpr LinearExpr
  | MaxEquality LinearExpr "LinearExpr list"

record Constraint =
  kind :: ConstraintKind
  only_enforce_if :: "BoolVar list"

record CpModelBuilder =
  variables :: "(int \<times> int) list"
  constraints :: "Constraint list"
  hints :: "(BoolVar \<times> bool) list"
  objective :: "LinearExpr option"

definition empty_cp_model :: CpModelBuilder where
  "empty_cp_model = \<lparr>variables = [], constraints = [], hints = [], objective = None\<rparr>"

definition NewBoolVar :: "CpModelBuilder \<Rightarrow> BoolVar \<times> CpModelBuilder" where
  "NewBoolVar cp = (Var (int (length (variables cp))), cp\<lparr>variables := variables cp @ [(0, 1)]\<rparr>)"

definition NewIntVar :: "int \<times> int \<Rightarrow> CpModelBuilder \<Rightarrow> IntVar \<times> CpModelBuilder" where
  "NewIntVar d cp = (int (length (variables cp)), cp\<lparr>variables := variables cp @ [d]\<rparr>)"

definition add_constraint :: "ConstraintKind \<Rightarrow> CpModelBuilder \<Rightarrow> CpModelBuilder" where
  "add_constraint k cp = cp\<lparr>constraints := constraints cp @ [\<lparr>kind = k, only_enforce_if = []\<rparr>]\<rparr>"

definition add_constraint_if :: "ConstraintKind \<Rightarrow> BoolVar \<Rightarrow> CpModelBuilder \<Rightarrow> CpModelBuilder" where
  "add_constraint_if k b cp =
     cp\<lparr>constraints := constraints cp @ [\<lparr>kind = k, only_enforce_if = [b]\<rparr>]\<rparr>"

definition AddHint :: "BoolVar \<Rightarrow> bool \<Rightarrow> CpModelBuilder \<Rightarrow> CpModelBuilder" where
  "AddHint b v cp = cp\<lparr>hints := hints cp @ [(b, v)]\<rparr>"

definition Minimize :: "LinearExpr \<Rightarrow> CpModelBuilder \<Rightarrow> CpModelBuilder" where
  "Minimize e cp = cp\<lparr>objective := Some e\<rparr>"

text \<open>
  Meaning of a model: an assignment gives every variable index an integer.  It is
  feasible when every variable lies in its domain and every constraint whose enforcement
  literals are all true holds.
\<close>

type_synonym assignment = "int \<Rightarrow> int"

fun bool_int :: "assignment \<Rightarrow> BoolVar \<Rightarrow> int" where
  "bool_int \<sigma> (Var i) = \<sigma> i"
| "bool_int \<sigma> (NegVar i) = 1 - \<sigma> i"

definition bool_value :: "assignment \<Rightarrow> BoolVar \<Rightarrow> bool" where
  "bool_value \<sigma> b = (bool_int \<sigma> b \<noteq> 0)"

definition eval_expr :: "assignment \<Rightarrow> LinearExpr \<Rightarrow> int" where
  "eval_expr \<sigma> e = sum_list (map (\<lambda>(i, c). c * \<sigma> i) (expr_terms e)) + expr_offset e"

definition count_true :: "assignment \<Rightarrow> BoolVar list \<Rightarrow> nat" where
  "count_true \<sigma> bs = length (filter (bool_value \<sigma>) bs)"

fun holds :: "assignment \<Rightarrow> ConstraintKind \<Rightarrow> bool" where
  "holds \<sigma> (BoolOr bs) = (0 < count_true \<sigma> bs)"
| "holds \<sigma> (ExactlyOne bs) = (count_true \<sigma> bs = 1)"
| "holds \<sigma> (AtMostOne bs) = (count_true \<sigma> bs \<le> 1)"
| "holds \<sigma> (Equality a b) = (eval_expr \<sigma> a = eval_expr \<sigma> b)"
| "holds \<sigma> (LessOrEqual a b) = (eval_expr \<sigma> a \<le> eval_expr \<sigma> b)"
| "holds \<sigma> (GreaterThan a b) = (eval_expr \<sigma> a > eval_expr \<sigma> b)"
| "holds \<sigma> (MaxEquality t es) = (es \<noteq> [] \<and> eval_expr \<sigma> t = Max (set (map (eval_expr \<sigma>) es)))"

definition satisfied :: "assignment \<Rightarrow> Constraint \<Rightarrow> bool" where
  "satisfied \<sigma> c = (list_all (bool_value \<sigma>) (only_enforce_if c) \<longrightarrow> holds \<sigma> (kind c))"

definition in_domains :: "assignment \<Rightarrow> (int \<times> int) list \<Rightarrow> bool" where
  "in_domains \<sigma> doms =
     list_all (\<lambda>i. fst (doms ! i) \<le> \<sigma> (int i) \<and> \<sigma> (int i) \<le> snd (doms ! i)) [0..<length doms]"

definition feasible :: "assignment \<Rightarrow> CpModelBuilder \<Rightarrow> bool" where
  "feasible \<sigma> cp = (in_domains \<sigma> (variables cp) \<and> list_all (satisfied \<sigma>) (constraints cp))"

datatype CpSolverStatus = UNKNOWN | MODEL_INVALID | FEASIBLE | INFEASIBLE | OPTIMAL

record CpSolverResponse =
  status :: CpSolverStatus
  solution :: assignment

definition SolutionBooleanValue :: "CpSolverResponse \<Rightarrow> BoolVar \<Rightarrow> bool" where
  "SolutionBooleanValue response b = bool_value (solution response) b"

subsection \<open>Context read by the router\<close>

record t_physical_tile_loc =
  loc_x :: int
  loc_y :: int
  layer_num :: int

text \<open>
  Of the global context the router reads the NoC context, the placement of the cluster
  blocks (\<^verbatim>\<open>block_locs[...].loc\<close>) and the compressed grid of the router block type.
  The last two belong to the placement engine, which is not part of the sources at hand:
  they are parameters here.  \<open>compressed_loc\<close> stands for
  \<^verbatim>\<open>get_compressed_loc(compressed_noc_grid, {pos, 0}, num_layers)[pos.layer_num]\<close>.
\<close>

record VprContext =
  noc_ctx :: NocContext
  block_locs :: "ClusterBlockId \<Rightarrow> t_physical_tile_loc"
  compressed_loc :: "t_physical_tile_loc \<Rightarrow> t_physical_tile_loc"

text \<open>
  Failures of the router: the first five are \<^verbatim>\<open>VTR_ASSERT\<close>s of sat_routing.cpp and of the
  storage lookups it calls; the others stand for undefined behaviour of the source (an
  index outside a vector, a dereferenced end iterator, a floating-point value that no
  \<^verbatim>\<open>int\<close> can hold).
\<close>

datatype RouteError =
    NotTurnModelRouting
  | LinkNotAxisAligned
  | LatencyNotConstrained
  | RouteLengthMismatch
  | StatusNotAccepted
  | NoRouterAtLocation
  | RouterIdNotConverted
  | NoRouterCluster
  | InvalidLinkId
  | InvalidRouterId
  | NoChainStart
  | FloatToIntUndefined

text \<open>Modelled from the spec: the read-only queries of \<^verbatim>\<open>NocStorage\<close> (section 4.2) and of
  the traffic-flow registry.\<close>

definition get_noc_link_keys :: "NocStorage \<Rightarrow> NocLinkId list" where
  "get_noc_link_keys m = [0..<length (link_storage m)]"

definition get_single_noc_link :: "NocStorage \<Rightarrow> NocLinkId \<Rightarrow> NocLink" where
  "get_single_noc_link m l = link_storage m ! l"

definition get_single_noc_router :: "NocStorage \<Rightarrow> NocRouterId \<Rightarrow> NocRouter" where
  "get_single_noc_router m r = router_storage m ! r"

definition get_noc_router_outgoing_links :: "NocStorage \<Rightarrow> NocRouterId \<Rightarrow> NocLinkId list" where
  "get_noc_router_outgoing_links m r =
     filter (\<lambda>l. source_router (get_single_noc_link m l) = r) (get_noc_link_keys m)"

definition get_noc_router_incoming_links :: "NocStorage \<Rightarrow> NocRouterId \<Rightarrow> NocLinkId list" where
  "get_noc_router_incoming_links m r =
     filter (\<lambda>l. sink_router (get_single_noc_link m l) = r) (get_noc_link_keys m)"

definition get_router_physical_location :: "NocRouter \<Rightarrow> t_physical_tile_loc" where
  "get_router_physical_location r =
     \<lparr>loc_x = router_grid_position_x r, loc_y = router_grid_position_y r,
      layer_num = router_layer_position r\<rparr>"

fun find_location :: "NocRouter list \<Rightarrow> t_physical_tile_loc \<Rightarrow> nat \<Rightarrow> NocRouterId option" where
  "find_location [] loc k = None"
| "find_location (r # rs) loc k =
     (if get_router_physical_location r = loc then Some k else find_location rs loc (Suc k))"

definition get_router_at_grid_location :: "NocStorage \<Rightarrow> t_physical_tile_loc \<Rightarrow> NocRouterId option" where
  "get_router_at_grid_location m loc = find_location (router_storage m) loc 0"

definition get_all_traffic_flow_id :: "NocTrafficFlows \<Rightarrow> NocTrafficFlowId list" where
  "get_all_traffic_flow_id s = [0..<length (list_of_noc_traffic_flows s)]"

definition get_single_noc_traffic_flow :: "NocTrafficFlows \<Rightarrow> NocTrafficFlowId \<Rightarrow> t_noc_traffic_flow" where
  "get_single_noc_traffic_flow s f = list_of_noc_traffic_flows s ! f"

definition get_traffic_flow_route :: "NocTrafficFlows \<Rightarrow> NocTrafficFlowId \<Rightarrow> NocLinkId list" where
  "get_traffic_flow_route s f =
     (if f < length (traffic_flow_routes s) then traffic_flow_routes s ! f else [])"

subsection \<open>Variable containers\<close>

type_synonym t_flow_link_var_map = "NocTrafficFlowId \<times> NocLinkId \<Rightarrow> BoolVar option"

text \<open>\<^verbatim>\<open>flow_link_vars[{f, l}]\<close>: the subscript of an unordered map inserts a
  default-constructed value for a key it does not hold.\<close>

definition flow_link_var_at ::
  "t_flow_link_var_map \<Rightarrow> NocTrafficFlowId \<times> NocLinkId \<Rightarrow> BoolVar \<times> t_flow_link_var_map" where
  "flow_link_var_at m k =
     (case m k of
        Some v \<Rightarrow> (v, m)
      | None \<Rightarrow> (default_BoolVar, m(k \<mapsto> default_BoolVar)))"

text \<open>\<^verbatim>\<open>std::map\<close> keeps its entries in key order; assigning through the subscript replaces
  the value of a key already there.\<close>

fun ordered_map_put :: "nat \<Rightarrow> 'v \<Rightarrow> (nat \<times> 'v) list \<Rightarrow> (nat \<times> 'v) list" where
  "ordered_map_put k v [] = [(k, v)]"
| "ordered_map_put k v ((k', v') # m) =
     (if k < k' then (k, v) # (k', v') # m
      else if k = k' then (k, v) # m
      else (k', v') # ordered_map_put k v m)"

definition get_flow_link_vars ::
  "t_flow_link_var_map \<Rightarrow> NocTrafficFlowId list \<Rightarrow> NocLinkId list \<Rightarrow> BoolVar list" where
  "get_flow_link_vars m traffic_flow_ids noc_link_ids =
     concat (map (\<lambda>f. concat (map (\<lambda>l. case m (f, l) of Some v \<Rightarrow> [v] | None \<Rightarrow> [])
                                  noc_link_ids))
                 traffic_flow_ids)"

subsection \<open>forbid_illegal_turns\<close>

fun forbid_turn_for_flows ::
  "NocLinkId \<times> NocLinkId \<Rightarrow> NocTrafficFlowId list \<Rightarrow> t_flow_link_var_map \<times> CpModelBuilder
     \<Rightarrow> t_flow_link_var_map \<times> CpModelBuilder" where
  "forbid_turn_for_flows turn [] st = st"
| "forbid_turn_for_flows turn (f # fs) st =
     (let (first_var, fv1) = flow_link_var_at (fst st) (f, fst turn);
          (second_var, fv2) = flow_link_var_at fv1 (f, snd turn)
      in forbid_turn_for_flows turn fs
           (fv2, add_constraint (BoolOr [bool_not first_var, bool_not second_var]) (snd st)))"

fun forbid_illegal_turns_loop ::
  "(NocLinkId \<times> NocLinkId) list \<Rightarrow> NocTrafficFlowId list \<Rightarrow> t_flow_link_var_map \<times> CpModelBuilder
     \<Rightarrow> t_flow_link_var_map \<times> CpModelBuilder" where
  "forbid_illegal_turns_loop [] fs st = st"
| "forbid_illegal_turns_loop (turn # turns) fs st =
     forbid_illegal_turns_loop turns fs (forbid_turn_for_flows turn fs st)"

definition forbid_illegal_turns ::
  "VprContext \<Rightarrow> t_flow_link_var_map \<Rightarrow> CpModelBuilder
     \<Rightarrow> RouteError + (t_flow_link_var_map \<times> CpModelBuilder)" where
  "forbid_illegal_turns ctx flow_link_vars cp_model =
     (case noc_flows_router (noc_ctx ctx) of
        OtherRouting \<Rightarrow> Inl NotTurnModelRouting
      | TurnModelRouting illegal_turns \<Rightarrow>
          Inr (forbid_illegal_turns_loop illegal_turns
                 (get_all_traffic_flow_id (noc_traffic_flows_storage (noc_ctx ctx)))
                 (flow_link_vars, cp_model)))"

subsection \<open>Binary64 arithmetic\<close>

text \<open>
  The source computes the rescaled bandwidths and the permissible link counts in
  \<^verbatim>\<open>double\<close>.  A finite \<^verbatim>\<open>double\<close> is the real number it denotes.  Every operation rounds its exact result to the nearest number with a
  significand of 53 bits, a tie to the even significand, within the exponent range of
  binary64 (IEEE 754): below \<open>2^-1022\<close> the spacing stays \<open>2^-1074\<close>, and a rounded result of
  magnitude \<open>2^1024\<close> or more is an infinity.  The sign of an infinity and of a zero is not
  kept; no result below depends on it.
\<close>

definition pow2 :: "int \<Rightarrow> real" where
  "pow2 e = (if 0 \<le> e then 2 ^ nat e else 1 / 2 ^ nat (- e))"

text \<open>The exponent \<open>e\<close> with \<open>2^e \<le> x < 2^(e+1)\<close>, looked for from \<open>0\<close> upwards as far as
  \<open>1024\<close> and downwards as far as \<open>-1022\<close>.\<close>

fun exponent_up :: "nat \<Rightarrow> real \<Rightarrow> int \<Rightarrow> int" where
  "exponent_up 0 x e = e"
| "exponent_up (Suc fuel) x e = (if x < 2 then e else exponent_up fuel (x / 2) (e + 1))"

fun exponent_down :: "nat \<Rightarrow> real \<Rightarrow> int \<Rightarrow> int" where
  "exponent_down 0 x e = e"
| "exponent_down (Suc fuel) x e = (if 1 \<le> x then e else exponent_down fuel (2 * x) (e - 1))"

definition binary64_exponent :: "real \<Rightarrow> int" where
  "binary64_exponent x =
     (if 1 \<le> abs x then exponent_up 1024 (abs x) 0 else exponent_down 1022 (abs x) 0)"

definition round_half_even :: "real \<Rightarrow> int" where
  "round_half_even q =
     (if q - of_int \<lfloor>q\<rfloor> < 1 / 2 then \<lfloor>q\<rfloor>
      else if 1 / 2 < q - of_int \<lfloor>q\<rfloor> then \<lfloor>q\<rfloor> + 1
      else if even \<lfloor>q\<rfloor> then \<lfloor>q\<rfloor> else \<lfloor>q\<rfloor> + 1)"

definition round_binary64 :: "real \<Rightarrow> real" where
  "round_binary64 x =
     (if x = 0 then 0
      else of_int (round_half_even (x / pow2 (binary64_exponent x - 52)))
             * pow2 (binary64_exponent x - 52))"

datatype double = Finite real | Infinite | NotANumber

definition to_double :: "real \<Rightarrow> double" where
  "to_double x =
     (if abs (round_binary64 x) < 2 ^ 1024 then Finite (round_binary64 x) else Infinite)"

text \<open>Sum and difference are taken of two finite numbers only.\<close>

definition double_add :: "real \<Rightarrow> real \<Rightarrow> double" where
  "double_add a b = to_double (a + b)"

definition double_sub :: "real \<Rightarrow> real \<Rightarrow> double" where
  "double_sub a b = to_double (a - b)"

fun double_div :: "double \<Rightarrow> double \<Rightarrow> double" where
  "double_div (Finite a) (Finite b) =
     (if b = 0 then (if a = 0 then NotANumber else Infinite) else to_double (a / b))"
| "double_div (Finite a) Infinite = Finite 0"
| "double_div Infinite (Finite b) = Infinite"
| "double_div Infinite Infinite = NotANumber"
| "double_div NotANumber y = NotANumber"
| "double_div x NotANumber = NotANumber"

fun double_mul :: "double \<Rightarrow> double \<Rightarrow> double" where
  "double_mul (Finite a) (Finite b) = to_double (a * b)"
| "double_mul (Finite a) Infinite = (if a = 0 then NotANumber else Infinite)"
| "double_mul Infinite (Finite b) = (if b = 0 then NotANumber else Infinite)"
| "double_mul Infinite Infinite = Infinite"
| "double_mul NotANumber y = NotANumber"
| "double_mul x NotANumber = NotANumber"

text \<open>\<^verbatim>\<open>std::floor\<close> followed by the conversion to \<^verbatim>\<open>int\<close>: the floor of a finite \<^verbatim>\<open>double\<close> is
  exact, and the conversion is defined only when the value fits 32 bits.  An infinity or
  a NaN does not fit.\<close>

fun floor_to_int :: "double \<Rightarrow> RouteError + int" where
  "floor_to_int (Finite x) =
     (if - 2147483648 \<le> \<lfloor>x\<rfloor> \<and> \<lfloor>x\<rfloor> \<le> 2147483647 then Inr \<lfloor>x\<rfloor>
      else Inl FloatToIntUndefined)"
| "floor_to_int Infinite = Inl FloatToIntUndefined"
| "floor_to_int NotANumber = Inl FloatToIntUndefined"

subsection \<open>rescale_traffic_flow_bandwidths\<close>

text \<open>The resolution is an \<^verbatim>\<open>int\<close>; its conversion to \<^verbatim>\<open>double\<close> is exact.\<close>

fun rescale_loop :: "real \<Rightarrow> int \<Rightarrow> t_noc_traffic_flow list \<Rightarrow> RouteError + int list" where
  "rescale_loop link_bw bandwidth_resolution [] = Inr []"
| "rescale_loop link_bw bandwidth_resolution (traffic_flow # rest) =
     (case floor_to_int
             (double_mul (double_div (Finite (traffic_flow_bandwidth traffic_flow)) (Finite link_bw))
                         (Finite (real_of_int bandwidth_resolution))) of
        Inl e \<Rightarrow> Inl e
      | Inr rescaled_bandwidth \<Rightarrow>
          (case rescale_loop link_bw bandwidth_resolution rest of
             Inl e \<Rightarrow> Inl e
           | Inr bws \<Rightarrow> Inr (rescaled_bandwidth # bws)))"

definition rescale_traffic_flow_bandwidths :: "VprContext \<Rightarrow> int \<Rightarrow> RouteError + int list" where
  "rescale_traffic_flow_bandwidths ctx bandwidth_resolution =
     rescale_loop (storage_link_bandwidth (noc_model (noc_ctx ctx))) bandwidth_resolution
       (list_of_noc_traffic_flows (noc_traffic_flows_storage (noc_ctx ctx)))"

subsection \<open>create_congested_link_vars\<close>

fun congestion_lhs ::
  "int list \<Rightarrow> NocLinkId \<Rightarrow> NocTrafficFlowId list \<Rightarrow> LinearExpr \<times> t_flow_link_var_map
     \<Rightarrow> LinearExpr \<times> t_flow_link_var_map" where
  "congestion_lhs bws l [] st = st"
| "congestion_lhs bws l (f # fs) st =
     (let (binary_var, fv') = flow_link_var_at (snd st) (f, l)
      in congestion_lhs bws l fs (expr_add (fst st) (expr_term binary_var (bws ! f)), fv'))"

fun create_congested_link_vars_loop ::
  "int list \<Rightarrow> int \<Rightarrow> NocTrafficFlowId list \<Rightarrow> NocLinkId list
     \<Rightarrow> BoolVar list \<times> t_flow_link_var_map \<times> CpModelBuilder
     \<Rightarrow> BoolVar list \<times> t_flow_link_var_map \<times> CpModelBuilder" where
  "create_congested_link_vars_loop bws bandwidth_resolution fs [] st = st"
| "create_congested_link_vars_loop bws bandwidth_resolution fs (l # ls) st =
     (let (lhs, fv') = congestion_lhs bws l fs (expr_zero, fst (snd st));
          (congested, cp1) = NewBoolVar (snd (snd st));
          cp2 = add_constraint_if (LessOrEqual lhs (expr_const bandwidth_resolution))
                  (bool_not congested) cp1;
          cp3 = add_constraint_if (GreaterThan lhs (expr_const bandwidth_resolution))
                  congested cp2
      in create_congested_link_vars_loop bws bandwidth_resolution fs ls
           (fst st @ [congested], fv', cp3))"

definition create_congested_link_vars ::
  "VprContext \<Rightarrow> BoolVar list \<Rightarrow> t_flow_link_var_map \<Rightarrow> CpModelBuilder \<Rightarrow> int
     \<Rightarrow> RouteError + (BoolVar list \<times> t_flow_link_var_map \<times> CpModelBuilder)" where
  "create_congested_link_vars ctx congested_link_vars flow_link_vars cp_model bandwidth_resolution =
     (case rescale_traffic_flow_bandwidths ctx bandwidth_resolution of
        Inl e \<Rightarrow> Inl e
      | Inr bws \<Rightarrow>
          Inr (create_congested_link_vars_loop bws bandwidth_resolution
                 (get_all_traffic_flow_id (noc_traffic_flows_storage (noc_ctx ctx)))
                 (get_noc_link_keys (noc_model (noc_ctx ctx)))
                 (congested_link_vars, flow_link_vars, cp_model)))"

subsection \<open>add_continuity_constraints\<close>

fun continuity_at_routers ::
  "NocStorage \<Rightarrow> t_flow_link_var_map \<Rightarrow> NocTrafficFlowId \<Rightarrow> NocRouterId \<Rightarrow> NocRouterId
     \<Rightarrow> NocRouter list \<Rightarrow> CpModelBuilder \<Rightarrow> RouteError + CpModelBuilder" where
  "continuity_at_routers m fv f source_router_id sink_router_id [] cp = Inr cp"
| "continuity_at_routers m fv f source_router_id sink_router_id (noc_router # rest) cp =
     (case convert_router_id m (router_user_id noc_router) of
        None \<Rightarrow> Inl RouterIdNotConverted
      | Some noc_router_id \<Rightarrow>
          if noc_router_id = source_router_id \<or> noc_router_id = sink_router_id
          then continuity_at_routers m fv f source_router_id sink_router_id rest cp
          else
            (let in_vars = get_flow_link_vars fv [f] (get_noc_router_incoming_links m noc_router_id);
                 cp1 = add_constraint (AtMostOne in_vars) cp;
                 lhs = expr_sum in_vars;
                 out_vars = get_flow_link_vars fv [f] (get_noc_router_outgoing_links m noc_router_id);
                 cp2 = add_constraint (AtMostOne out_vars) cp1;
                 rhs = expr_sum out_vars;
                 cp3 = add_constraint (Equality lhs rhs) cp2
             in continuity_at_routers m fv f source_router_id sink_router_id rest cp3))"

fun add_continuity_constraints_loop ::
  "VprContext \<Rightarrow> t_flow_link_var_map \<Rightarrow> NocTrafficFlowId list \<Rightarrow> CpModelBuilder
     \<Rightarrow> RouteError + CpModelBuilder" where
  "add_continuity_constraints_loop ctx fv [] cp = Inr cp"
| "add_continuity_constraints_loop ctx fv (f # fs) cp =
     (let m = noc_model (noc_ctx ctx);
          traffic_flow = get_single_noc_traffic_flow (noc_traffic_flows_storage (noc_ctx ctx)) f
      in
      case get_router_at_grid_location m (block_locs ctx (source_router_cluster_id traffic_flow)) of
        None \<Rightarrow> Inl NoRouterAtLocation
      | Some source_router_id \<Rightarrow>
      (case get_router_at_grid_location m (block_locs ctx (sink_router_cluster_id traffic_flow)) of
        None \<Rightarrow> Inl NoRouterAtLocation
      | Some sink_router_id \<Rightarrow>
          (let cp1 = add_constraint
                       (ExactlyOne (get_flow_link_vars fv [f]
                                      (get_noc_router_outgoing_links m source_router_id))) cp;
               cp2 = add_constraint
                       (ExactlyOne (get_flow_link_vars fv [f]
                                      (get_noc_router_incoming_links m sink_router_id))) cp1
           in
           case continuity_at_routers m fv f source_router_id sink_router_id (router_storage m) cp2 of
             Inl e \<Rightarrow> Inl e
           | Inr cp3 \<Rightarrow> add_continuity_constraints_loop ctx fv fs cp3)))"

definition add_continuity_constraints ::
  "VprContext \<Rightarrow> t_flow_link_var_map \<Rightarrow> CpModelBuilder \<Rightarrow> RouteError + CpModelBuilder" where
  "add_continuity_constraints ctx flow_link_vars cp_model =
     add_continuity_constraints_loop ctx flow_link_vars
       (get_all_traffic_flow_id (noc_traffic_flows_storage (noc_ctx ctx))) cp_model"

subsection \<open>group_noc_links_based_on_direction\<close>

record t_link_groups =
  up :: "NocLinkId list"
  down :: "NocLinkId list"
  right :: "NocLinkId list"
  left :: "NocLinkId list"

fun group_loop :: "NocStorage \<Rightarrow> NocLinkId list \<Rightarrow> t_link_groups \<Rightarrow> RouteError + t_link_groups" where
  "group_loop m [] g = Inr g"
| "group_loop m (noc_link_id # rest) g =
     (let noc_link = get_single_noc_link m noc_link_id;
          src_noc_router_id = source_router noc_link;
          dst_noc_router_id = sink_router noc_link
      in
      if \<not> (src_noc_router_id < length (router_storage m) \<and>
             dst_noc_router_id < length (router_storage m))
      then Inl InvalidRouterId
      else
        (let src_loc = get_router_physical_location (get_single_noc_router m src_noc_router_id);
             dst_loc = get_router_physical_location (get_single_noc_router m dst_noc_router_id)
         in
         if \<not> (loc_x src_loc = loc_x dst_loc \<or> loc_y src_loc = loc_y dst_loc)
         then Inl LinkNotAxisAligned
         else if loc_x src_loc = loc_x dst_loc then
           (if loc_y dst_loc > loc_y src_loc
            then group_loop m rest (g\<lparr>up := up g @ [noc_link_id]\<rparr>)
            else group_loop m rest (g\<lparr>down := down g @ [noc_link_id]\<rparr>))
         else
           (if loc_x dst_loc > loc_x src_loc
            then group_loop m rest (g\<lparr>right := right g @ [noc_link_id]\<rparr>)
            else group_loop m rest (g\<lparr>left := left g @ [noc_link_id]\<rparr>))))"

definition group_noc_links_based_on_direction ::
  "VprContext \<Rightarrow> t_link_groups \<Rightarrow> RouteError + t_link_groups" where
  "group_noc_links_based_on_direction ctx g =
     group_loop (noc_model (noc_ctx ctx)) (get_noc_link_keys (noc_model (noc_ctx ctx))) g"

subsection \<open>add_distance_constraints\<close>

fun add_distance_constraints_loop ::
  "VprContext \<Rightarrow> t_flow_link_var_map \<Rightarrow> t_link_groups \<Rightarrow> NocTrafficFlowId list \<Rightarrow> CpModelBuilder
     \<Rightarrow> RouteError + CpModelBuilder" where
  "add_distance_constraints_loop ctx fv g [] cp = Inr cp"
| "add_distance_constraints_loop ctx fv g (f # fs) cp =
     (let m = noc_model (noc_ctx ctx);
          traffic_flow = get_single_noc_traffic_flow (noc_traffic_flows_storage (noc_ctx ctx)) f
      in
      case get_router_at_grid_location m (block_locs ctx (source_router_cluster_id traffic_flow)) of
        None \<Rightarrow> Inl NoRouterAtLocation
      | Some src_router_id \<Rightarrow>
      (case get_router_at_grid_location m (block_locs ctx (sink_router_cluster_id traffic_flow)) of
        None \<Rightarrow> Inl NoRouterAtLocation
      | Some dst_router_id \<Rightarrow>
          (let src_router_pos = get_router_physical_location (get_single_noc_router m src_router_id);
               dst_router_pos = get_router_physical_location (get_single_noc_router m dst_router_id);
               compressed_src_loc = compressed_loc ctx src_router_pos;
               compressed_dst_loc = compressed_loc ctx dst_router_pos;
               delta_x = loc_x compressed_dst_loc - loc_x compressed_src_loc;
               delta_y = loc_y compressed_dst_loc - loc_y compressed_src_loc;
               right_vars = get_flow_link_vars fv [f] (right g);
               left_vars = get_flow_link_vars fv [f] (left g);
               up_vars = get_flow_link_vars fv [f] (up g);
               down_vars = get_flow_link_vars fv [f] (down g);
               horizontal_expr = expr_add expr_zero (expr_sub (expr_sum right_vars) (expr_sum left_vars));
               cp1 = add_constraint (Equality horizontal_expr (expr_const delta_x)) cp;
               vertical_expr = expr_add expr_zero (expr_sub (expr_sum up_vars) (expr_sum down_vars));
               cp2 = add_constraint (Equality vertical_expr (expr_const delta_y)) cp1
           in add_distance_constraints_loop ctx fv g fs cp2)))"

definition add_distance_constraints ::
  "VprContext \<Rightarrow> t_flow_link_var_map \<Rightarrow> CpModelBuilder \<Rightarrow> t_link_groups
     \<Rightarrow> RouteError + CpModelBuilder" where
  "add_distance_constraints ctx flow_link_vars cp_model g =
     (if router_cluster_in_netlist (noc_traffic_flows_storage (noc_ctx ctx)) = []
      then Inl NoRouterCluster
      else add_distance_constraints_loop ctx flow_link_vars g
             (get_all_traffic_flow_id (noc_traffic_flows_storage (noc_ctx ctx))) cp_model)"

subsection \<open>create_flow_link_vars\<close>

fun create_link_vars ::
  "NocTrafficFlowId \<Rightarrow> NocLinkId list \<Rightarrow> CpModelBuilder \<times> t_flow_link_var_map
     \<Rightarrow> CpModelBuilder \<times> t_flow_link_var_map" where
  "create_link_vars f [] st = st"
| "create_link_vars f (noc_link_id # rest) st =
     (let (v, cp') = NewBoolVar (fst st)
      in create_link_vars f rest (cp', (snd st)((f, noc_link_id) \<mapsto> v)))"

type_synonym t_latency_overrun_vars = "(NocTrafficFlowId \<times> IntVar) list"

fun create_flow_link_vars_loop ::
  "VprContext \<Rightarrow> NocTrafficFlowId list
     \<Rightarrow> CpModelBuilder \<times> t_flow_link_var_map \<times> t_latency_overrun_vars
     \<Rightarrow> CpModelBuilder \<times> t_flow_link_var_map \<times> t_latency_overrun_vars" where
  "create_flow_link_vars_loop ctx [] st = st"
| "create_flow_link_vars_loop ctx (f # fs) st =
     (let traffic_flow = get_single_noc_traffic_flow (noc_traffic_flows_storage (noc_ctx ctx)) f;
          latency_overrun_domain = (0, 20);
          (cp1, lov1) =
            (if max_traffic_flow_latency traffic_flow < 1 / 10
             then (let (v, cp') = NewIntVar latency_overrun_domain (fst st)
                   in (cp', ordered_map_put f v (snd (snd st))))
             else (fst st, snd (snd st)));
          (cp2, fv2) = create_link_vars f (get_noc_link_keys (noc_model (noc_ctx ctx)))
                         (cp1, fst (snd st))
      in create_flow_link_vars_loop ctx fs (cp2, fv2, lov1))"

definition create_flow_link_vars ::
  "VprContext \<Rightarrow> CpModelBuilder \<Rightarrow> t_flow_link_var_map \<Rightarrow> t_latency_overrun_vars
     \<Rightarrow> CpModelBuilder \<times> t_flow_link_var_map \<times> t_latency_overrun_vars" where
  "create_flow_link_vars ctx cp_model flow_link_vars latency_overrun_vars =
     create_flow_link_vars_loop ctx
       (get_all_traffic_flow_id (noc_traffic_flows_storage (noc_ctx ctx)))
       (cp_model, flow_link_vars, latency_overrun_vars)"

subsection \<open>comp_max_number_of_traversed_links, constrain_latency_overrun_vars\<close>

definition comp_max_number_of_traversed_links :: "VprContext \<Rightarrow> NocTrafficFlowId \<Rightarrow> RouteError + int" where
  "comp_max_number_of_traversed_links ctx traffic_flow_id =
     (let traffic_flow =
            get_single_noc_traffic_flow (noc_traffic_flows_storage (noc_ctx ctx)) traffic_flow_id;
          noc_link_latency = storage_link_latency (noc_model (noc_ctx ctx));
          noc_router_latency = storage_router_latency (noc_model (noc_ctx ctx));
          traffic_flow_latency_constraint = max_traffic_flow_latency traffic_flow
      in
      if \<not> traffic_flow_latency_constraint < 1 / 10 then Inl LatencyNotConstrained
      else floor_to_int
             (double_div (double_sub traffic_flow_latency_constraint noc_router_latency)
                         (double_add noc_link_latency noc_router_latency)))"

fun constrain_latency_overrun_vars_loop ::
  "VprContext \<Rightarrow> t_flow_link_var_map \<Rightarrow> t_latency_overrun_vars \<Rightarrow> CpModelBuilder
     \<Rightarrow> RouteError + CpModelBuilder" where
  "constrain_latency_overrun_vars_loop ctx fv [] cp = Inr cp"
| "constrain_latency_overrun_vars_loop ctx fv (entry # rest) cp =
     (case comp_max_number_of_traversed_links ctx (fst entry) of
        Inl e \<Rightarrow> Inl e
      | Inr n_max_links \<Rightarrow>
          (let link_vars = get_flow_link_vars fv [fst entry]
                             (get_noc_link_keys (noc_model (noc_ctx ctx)));
               latency_overrun_expr =
                 expr_sub (expr_add expr_zero (expr_sum link_vars)) (expr_const n_max_links)
           in constrain_latency_overrun_vars_loop ctx fv rest
                (add_constraint (MaxEquality (expr_int_var (snd entry))
                                   [latency_overrun_expr, expr_const 0]) cp)))"

definition constrain_latency_overrun_vars ::
  "VprContext \<Rightarrow> CpModelBuilder \<Rightarrow> t_flow_link_var_map \<Rightarrow> t_latency_overrun_vars
     \<Rightarrow> RouteError + CpModelBuilder" where
  "constrain_latency_overrun_vars ctx cp_model flow_link_vars latency_overrun_vars =
     constrain_latency_overrun_vars_loop ctx flow_link_vars latency_overrun_vars cp_model"

subsection \<open>sort_noc_links_in_chain_order\<close>

fun fill_maps ::
  "NocStorage \<Rightarrow> NocLinkId list \<Rightarrow> (NocRouterId \<Rightarrow> NocLinkId option) \<times> (NocRouterId \<Rightarrow> bool option)
     \<Rightarrow> (NocRouterId \<Rightarrow> NocLinkId option) \<times> (NocRouterId \<Rightarrow> bool option)" where
  "fill_maps m [] maps = maps"
| "fill_maps m (l # ls) maps =
     (let src_router_id = source_router (get_single_noc_link m l);
          dst_router_id = sink_router (get_single_noc_link m l)
      in fill_maps m ls ((fst maps)(src_router_id \<mapsto> l), (snd maps)(dst_router_id \<mapsto> True)))"

text \<open>The \<^verbatim>\<open>while (true)\<close> loop that follows the chain.  It need not end (the selected
  links may close a cycle), so not returning is the value \<open>None\<close>.\<close>

partial_function (option) chain_loop ::
  "NocStorage \<Rightarrow> (NocRouterId \<Rightarrow> NocLinkId option) \<Rightarrow> NocLinkId \<Rightarrow> NocLinkId list
     \<Rightarrow> NocLinkId list option" where
  "chain_loop m src_map current route =
     (let route' = route @ [current];
          dst_router_id = sink_router (get_single_noc_link m current)
      in case src_map dst_router_id of
           None \<Rightarrow> Some route'
         | Some next_link \<Rightarrow> chain_loop m src_map next_link route')"

definition sort_noc_links_in_chain_order ::
  "NocStorage \<Rightarrow> NocLinkId list \<Rightarrow> (RouteError + NocLinkId list) option" where
  "sort_noc_links_in_chain_order m links =
     (if links = [] then Some (Inr [])
      else if \<not> list_all (\<lambda>l. l < length (link_storage m)) links then Some (Inl InvalidLinkId)
      else
        (let maps = fill_maps m links (Map.empty, Map.empty);
             src_map = fst maps;
             is_dst = snd maps
         in
         case find (\<lambda>l. is_dst (source_router (get_single_noc_link m l)) = None) links of
           None \<Rightarrow> Some (Inl NoChainStart)
         | Some start \<Rightarrow>
             (case chain_loop m src_map start [] of
                None \<Rightarrow> None
              | Some route \<Rightarrow>
                  if length route = length links then Some (Inr route)
                  else Some (Inl RouteLengthMismatch))))"

subsection \<open>convert_vars_to_routes\<close>

fun sort_routes ::
  "NocStorage \<Rightarrow> NocLinkId list list \<Rightarrow> (RouteError + NocLinkId list list) option" where
  "sort_routes m [] = Some (Inr [])"
| "sort_routes m (route # rest) =
     (case sort_noc_links_in_chain_order m route of
        None \<Rightarrow> None
      | Some (Inl e) \<Rightarrow> Some (Inl e)
      | Some (Inr chained) \<Rightarrow>
          (case sort_routes m rest of
             None \<Rightarrow> None
           | Some (Inl e) \<Rightarrow> Some (Inl e)
           | Some (Inr chained_rest) \<Rightarrow> Some (Inr (chained # chained_rest))))"

fun collect_routes ::
  "t_flow_link_var_map \<Rightarrow> CpSolverResponse \<Rightarrow> (NocTrafficFlowId \<times> NocLinkId) list
     \<Rightarrow> NocLinkId list list \<Rightarrow> NocLinkId list list" where
  "collect_routes fv response [] routes = routes"
| "collect_routes fv response (key # keys) routes =
     collect_routes fv response keys
       (case fv key of
          None \<Rightarrow> routes
        | Some var \<Rightarrow>
            if SolutionBooleanValue response var
            then routes[fst key := routes ! fst key @ [snd key]]
            else routes)"

text \<open>
  The order in which an unordered map hands out its entries is not specified: the
  sequence of keys visited is the parameter \<open>visit\<close>.
\<close>

definition convert_vars_to_routes ::
  "VprContext \<Rightarrow> (t_flow_link_var_map \<Rightarrow> (NocTrafficFlowId \<times> NocLinkId) list)
     \<Rightarrow> t_flow_link_var_map \<Rightarrow> CpSolverResponse
     \<Rightarrow> (RouteError + NocLinkId list list) option" where
  "convert_vars_to_routes ctx visit flow_link_vars response =
     (if \<not> (status response = FEASIBLE \<or> status response = OPTIMAL)
      then Some (Inl StatusNotAccepted)
      else
        sort_routes (noc_model (noc_ctx ctx))
          (collect_routes flow_link_vars response (visit flow_link_vars)
             (replicate (length (list_of_noc_traffic_flows (noc_traffic_flows_storage (noc_ctx ctx))))
                [])))"

subsection \<open>noc_sat_route\<close>

fun add_route_hints ::
  "NocTrafficFlowId \<Rightarrow> NocLinkId list \<Rightarrow> t_flow_link_var_map \<times> CpModelBuilder
     \<Rightarrow> t_flow_link_var_map \<times> CpModelBuilder" where
  "add_route_hints f [] st = st"
| "add_route_hints f (route_link_id # rest) st =
     (let (v, fv') = flow_link_var_at (fst st) (f, route_link_id)
      in add_route_hints f rest (fv', AddHint v True (snd st)))"

fun add_hints_loop ::
  "NocTrafficFlows \<Rightarrow> NocTrafficFlowId list \<Rightarrow> t_flow_link_var_map \<times> CpModelBuilder
     \<Rightarrow> t_flow_link_var_map \<times> CpModelBuilder" where
  "add_hints_loop s [] st = st"
| "add_hints_loop s (f # fs) st =
     add_hints_loop s fs (add_route_hints f (get_traffic_flow_route s f) st)"

definition latency_overrun_sum_of :: "t_latency_overrun_vars \<Rightarrow> LinearExpr" where
  "latency_overrun_sum_of lov =
     expr_scale 1024 (foldl (\<lambda>e entry. expr_add e (expr_int_var (snd entry))) expr_zero lov)"

definition agg_bw_expr_of ::
  "int list \<Rightarrow> t_flow_link_var_map \<Rightarrow> (NocTrafficFlowId \<times> NocLinkId) list \<Rightarrow> LinearExpr" where
  "agg_bw_expr_of bws fv keys =
     foldl (\<lambda>e key. case fv key of
                       None \<Rightarrow> e
                     | Some var \<Rightarrow> expr_add e (expr_term var (bws ! fst key)))
           expr_zero keys"

record t_sat_model =
  sat_cp_model :: CpModelBuilder
  sat_flow_link_vars :: t_flow_link_var_map
  sat_latency_overrun_vars :: t_latency_overrun_vars
  sat_link_congested_vars :: "BoolVar list"
  sat_groups :: t_link_groups

text \<open>The part of \<^verbatim>\<open>noc_sat_route\<close> before the solver is called.\<close>

definition build_sat_model ::
  "VprContext \<Rightarrow> (t_flow_link_var_map \<Rightarrow> (NocTrafficFlowId \<times> NocLinkId) list) \<Rightarrow> int
     \<Rightarrow> RouteError + t_sat_model" where
  "build_sat_model ctx visit bandwidth_resolution =
     (case create_flow_link_vars ctx empty_cp_model Map.empty [] of
        (cp1, fv1, lov) \<Rightarrow>
     (case constrain_latency_overrun_vars ctx cp1 fv1 lov of
        Inl e \<Rightarrow> Inl e
      | Inr cp2 \<Rightarrow>
     (case forbid_illegal_turns ctx fv1 cp2 of
        Inl e \<Rightarrow> Inl e
      | Inr (fv2, cp3) \<Rightarrow>
     (case create_congested_link_vars ctx [] fv2 cp3 bandwidth_resolution of
        Inl e \<Rightarrow> Inl e
      | Inr (link_congested_vars, fv3, cp4) \<Rightarrow>
     (case add_continuity_constraints ctx fv3 cp4 of
        Inl e \<Rightarrow> Inl e
      | Inr cp5 \<Rightarrow>
     (case group_noc_links_based_on_direction ctx \<lparr>up = [], down = [], right = [], left = []\<rparr> of
        Inl e \<Rightarrow> Inl e
      | Inr g \<Rightarrow>
     (case add_distance_constraints ctx fv3 cp5 g of
        Inl e \<Rightarrow> Inl e
      | Inr cp6 \<Rightarrow>
     (case add_hints_loop (noc_traffic_flows_storage (noc_ctx ctx))
             (get_all_traffic_flow_id (noc_traffic_flows_storage (noc_ctx ctx))) (fv3, cp6) of
        (fv4, cp7) \<Rightarrow>
     (case rescale_traffic_flow_bandwidths ctx bandwidth_resolution of
        Inl e \<Rightarrow> Inl e
      | Inr bws \<Rightarrow>
          (let latency_overrun_sum = latency_overrun_sum_of lov;
               agg_bw_expr = agg_bw_expr_of bws fv4 (visit fv4);
               congested_link_sum = expr_scale (1024 * 16) (expr_sum link_congested_vars);
               cp8 = Minimize (expr_add (expr_add latency_overrun_sum agg_bw_expr)
                                 congested_link_sum) cp7
           in Inr \<lparr>sat_cp_model = cp8, sat_flow_link_vars = fv4,
                   sat_latency_overrun_vars = lov,
                   sat_link_congested_vars = link_congested_vars,
                   sat_groups = g\<rparr>))))))))))"

text \<open>
  \<^verbatim>\<open>noc_sat_route\<close> itself.  The solver (\<^verbatim>\<open>SolveCpModel\<close> with its parameters, the seed
  among them) is the parameter \<open>solve\<close>.  The flag \<^verbatim>\<open>minimize_aggregate_bandwidth\<close> is not
  read by the source.  \<open>None\<close> is a decoding loop that does not return.
\<close>

definition noc_sat_route ::
  "VprContext \<Rightarrow> (t_flow_link_var_map \<Rightarrow> (NocTrafficFlowId \<times> NocLinkId) list)
     \<Rightarrow> (CpModelBuilder \<Rightarrow> CpSolverResponse) \<Rightarrow> bool \<Rightarrow> int
     \<Rightarrow> (RouteError + NocLinkId list list) option" where
  "noc_sat_route ctx visit solve minimize_aggregate_bandwidth bandwidth_resolution =
     (case build_sat_model ctx visit bandwidth_resolution of
        Inl e \<Rightarrow> Some (Inl e)
      | Inr sat \<Rightarrow>
          (let response = solve (sat_cp_model sat) in
           if status response = FEASIBLE \<or> status response = OPTIMAL
           then convert_vars_to_routes ctx visit (sat_flow_link_vars sat) response
           else Some (Inr [])))"

section \<open>Example inputs\<close>

subsection \<open>Example inputs of the topology construction\<close>

definition tie_example_router :: t_router where
  "tie_example_router =
     \<lparr>router_id = 7, device_x_position = 1, device_y_position = 0, connection_list = []\<rparr>"


definition far_example_router :: t_router where
  "far_example_router =
     \<lparr>router_id = 7, device_x_position = 2 ^ 64, device_y_position = 1, connection_list = []\<rparr>"

definition far_example_tiles :: "t_noc_router_tile_position list" where
  "far_example_tiles =
     [\<lparr>grid_width_position = 0, grid_height_position = 0, tile_centroid_x = 0, tile_centroid_y = 0\<rparr>,
      \<lparr>grid_width_position = 0, grid_height_position = 2, tile_centroid_x = 0, tile_centroid_y = 2\<rparr>]"

definition example_noc_info :: "t_router \<Rightarrow> t_noc_inf" where
  "example_noc_info r =
     \<lparr>link_bandwidth = 1, link_latency = 1, router_latency = 1, router_list = [r],
      noc_router_tile_name = ''noc_router''\<rparr>"

definition empty_noc_storage :: NocStorage where
  "empty_noc_storage =
     \<lparr>router_storage = [], link_storage = [], built_noc = False,
      storage_link_bandwidth = 1, storage_link_latency = 1, storage_router_latency = 1\<rparr>"

definition no_router_grid :: DeviceGrid where
  "no_router_grid =
     \<lparr>grid_width = 1, grid_height = 1,
      grid_tile = (\<lambda>i j. \<lparr>tile_type_name = ''clb'', tile_type_width = 1, tile_type_height = 1,
                          width_offset = 0, height_offset = 0\<rparr>)\<rparr>"

definition example_noc_ctx :: NocContext where
  "example_noc_ctx =
     \<lparr>noc_model = empty_noc_storage, noc_link_bandwidth = 0, noc_link_latency = 0,
      noc_router_latency = 0,
      noc_traffic_flows_storage =
        \<lparr>list_of_noc_traffic_flows = [], traffic_flow_routes = [], router_cluster_in_netlist = []\<rparr>,
      noc_flows_router = OtherRouting\<rparr>"


section \<open>Notions used in the statements\<close>

definition is_bool :: "assignment \<Rightarrow> BoolVar \<Rightarrow> bool" where
  "is_bool \<sigma> b = (bool_int \<sigma> b = 0 \<or> bool_int \<sigma> b = 1)"

definition extends :: "CpModelBuilder \<Rightarrow> CpModelBuilder \<Rightarrow> bool" where
  "extends cp cp' = ((\<exists>vs. variables cp' = variables cp @ vs) \<and>
                     (\<exists>cs. constraints cp' = constraints cp @ cs))"

definition n_flows :: "VprContext \<Rightarrow> nat" where
  "n_flows ctx = length (list_of_noc_traffic_flows (noc_traffic_flows_storage (noc_ctx ctx)))"

definition n_links :: "VprContext \<Rightarrow> nat" where
  "n_links ctx = length (link_storage (noc_model (noc_ctx ctx)))"

definition fv_ok :: "CpModelBuilder \<Rightarrow> t_flow_link_var_map \<Rightarrow> nat set \<Rightarrow> nat \<Rightarrow> bool" where
  "fv_ok cp fv F nL =
     (\<forall>f\<in>F. \<forall>l<nL. \<exists>i. fv (f, l) = Some (Var (int i)) \<and> i < length (variables cp) \<and>
                          variables cp ! i = (0, 1))"

definition flow_latency :: "VprContext \<Rightarrow> NocTrafficFlowId \<Rightarrow> real" where
  "flow_latency ctx f =
     max_traffic_flow_latency (get_single_noc_traffic_flow (noc_traffic_flows_storage (noc_ctx ctx)) f)"

definition lov_ok ::
  "VprContext \<Rightarrow> CpModelBuilder \<Rightarrow> t_latency_overrun_vars \<Rightarrow> nat set \<Rightarrow> bool" where
  "lov_ok ctx cp lov D =
     ((\<forall>e\<in>set lov. fst e \<in> D \<and> flow_latency ctx (fst e) < 1 / 10 \<and>
          (\<exists>i. snd e = int i \<and> i < length (variables cp) \<and> variables cp ! i = (0, 20))) \<and>
      (\<forall>f\<in>D. flow_latency ctx f < 1 / 10 \<longrightarrow> f \<in> fst ` set lov) \<and>
      sorted_wrt (<) (map fst lov))"

definition overrun_constraint ::
  "VprContext \<Rightarrow> t_flow_link_var_map \<Rightarrow> NocTrafficFlowId \<Rightarrow> IntVar \<Rightarrow> int \<Rightarrow> Constraint" where
  "overrun_constraint ctx fv f v n =
     \<lparr>kind = MaxEquality (expr_int_var v)
               [expr_sub (expr_add expr_zero
                            (expr_sum (get_flow_link_vars fv [f]
                                         (get_noc_link_keys (noc_model (noc_ctx ctx))))))
                         (expr_const n),
                expr_const 0],
      only_enforce_if = []\<rparr>"

definition flow_link_value ::
  "t_flow_link_var_map \<Rightarrow> assignment \<Rightarrow> NocTrafficFlowId \<Rightarrow> NocLinkId \<Rightarrow> int" where
  "flow_link_value fv \<sigma> f l = (case fv (f, l) of Some b \<Rightarrow> bool_int \<sigma> b | None \<Rightarrow> 0)"

definition link_load ::
  "int list \<Rightarrow> t_flow_link_var_map \<Rightarrow> assignment \<Rightarrow> NocTrafficFlowId list \<Rightarrow> NocLinkId \<Rightarrow> int" where
  "link_load bws fv \<sigma> fs l = sum_list (map (\<lambda>f. bws ! f * flow_link_value fv \<sigma> f l) fs)"

definition congestion_encoded ::
  "CpModelBuilder \<Rightarrow> int \<Rightarrow> BoolVar \<Rightarrow> LinearExpr \<Rightarrow> bool" where
  "congestion_encoded cp res c lhs =
     (\<lparr>kind = LessOrEqual lhs (expr_const res), only_enforce_if = [bool_not c]\<rparr>
        \<in> set (constraints cp) \<and>
      \<lparr>kind = GreaterThan lhs (expr_const res), only_enforce_if = [c]\<rparr>
        \<in> set (constraints cp))"

definition flow_source_router :: "VprContext \<Rightarrow> NocTrafficFlowId \<Rightarrow> NocRouterId option" where
  "flow_source_router ctx f =
     get_router_at_grid_location (noc_model (noc_ctx ctx))
       (block_locs ctx (source_router_cluster_id
          (get_single_noc_traffic_flow (noc_traffic_flows_storage (noc_ctx ctx)) f)))"

definition flow_sink_router :: "VprContext \<Rightarrow> NocTrafficFlowId \<Rightarrow> NocRouterId option" where
  "flow_sink_router ctx f =
     get_router_at_grid_location (noc_model (noc_ctx ctx))
       (block_locs ctx (sink_router_cluster_id
          (get_single_noc_traffic_flow (noc_traffic_flows_storage (noc_ctx ctx)) f)))"

definition plain :: "ConstraintKind \<Rightarrow> Constraint" where
  "plain k = \<lparr>kind = k, only_enforce_if = []\<rparr>"

definition continuity_encoded ::
  "CpModelBuilder \<Rightarrow> NocStorage \<Rightarrow> t_flow_link_var_map \<Rightarrow> NocTrafficFlowId \<Rightarrow> NocRouterId \<Rightarrow> bool" where
  "continuity_encoded cp m fv f r =
     (plain (AtMostOne (get_flow_link_vars fv [f] (get_noc_router_incoming_links m r)))
        \<in> set (constraints cp) \<and>
      plain (AtMostOne (get_flow_link_vars fv [f] (get_noc_router_outgoing_links m r)))
        \<in> set (constraints cp) \<and>
      plain (Equality (expr_sum (get_flow_link_vars fv [f] (get_noc_router_incoming_links m r)))
                      (expr_sum (get_flow_link_vars fv [f] (get_noc_router_outgoing_links m r))))
        \<in> set (constraints cp))"

definition flow_continuity_encoded ::
  "VprContext \<Rightarrow> CpModelBuilder \<Rightarrow> t_flow_link_var_map \<Rightarrow> NocTrafficFlowId \<Rightarrow> bool" where
  "flow_continuity_encoded ctx cp fv f =
     (\<exists>src snk. flow_source_router ctx f = Some src \<and> flow_sink_router ctx f = Some snk \<and>
        plain (ExactlyOne (get_flow_link_vars fv [f]
                             (get_noc_router_outgoing_links (noc_model (noc_ctx ctx)) src)))
          \<in> set (constraints cp) \<and>
        plain (ExactlyOne (get_flow_link_vars fv [f]
                             (get_noc_router_incoming_links (noc_model (noc_ctx ctx)) snk)))
          \<in> set (constraints cp) \<and>
        (\<forall>r\<in>set (router_storage (noc_model (noc_ctx ctx))).
            \<exists>rid. convert_router_id (noc_model (noc_ctx ctx)) (router_user_id r) = Some rid \<and>
              (rid \<noteq> src \<and> rid \<noteq> snk \<longrightarrow>
                 continuity_encoded cp (noc_model (noc_ctx ctx)) fv f rid)))"

definition link_source_loc :: "NocStorage \<Rightarrow> NocLinkId \<Rightarrow> t_physical_tile_loc" where
  "link_source_loc m l =
     get_router_physical_location (get_single_noc_router m (source_router (get_single_noc_link m l)))"

definition link_sink_loc :: "NocStorage \<Rightarrow> NocLinkId \<Rightarrow> t_physical_tile_loc" where
  "link_sink_loc m l =
     get_router_physical_location (get_single_noc_router m (sink_router (get_single_noc_link m l)))"

definition is_up_link :: "NocStorage \<Rightarrow> NocLinkId \<Rightarrow> bool" where
  "is_up_link m l = (loc_x (link_source_loc m l) = loc_x (link_sink_loc m l) \<and>
                     loc_y (link_sink_loc m l) > loc_y (link_source_loc m l))"

definition is_down_link :: "NocStorage \<Rightarrow> NocLinkId \<Rightarrow> bool" where
  "is_down_link m l = (loc_x (link_source_loc m l) = loc_x (link_sink_loc m l) \<and>
                       loc_y (link_sink_loc m l) \<le> loc_y (link_source_loc m l))"

definition is_right_link :: "NocStorage \<Rightarrow> NocLinkId \<Rightarrow> bool" where
  "is_right_link m l = (loc_y (link_source_loc m l) = loc_y (link_sink_loc m l) \<and>
                        loc_x (link_sink_loc m l) > loc_x (link_source_loc m l))"

definition is_left_link :: "NocStorage \<Rightarrow> NocLinkId \<Rightarrow> bool" where
  "is_left_link m l = (loc_y (link_source_loc m l) = loc_y (link_sink_loc m l) \<and>
                       loc_x (link_sink_loc m l) < loc_x (link_source_loc m l))"

definition flow_delta_x :: "VprContext \<Rightarrow> NocRouterId \<Rightarrow> NocRouterId \<Rightarrow> int" where
  "flow_delta_x ctx src dst =
     loc_x (compressed_loc ctx (get_router_physical_location
              (get_single_noc_router (noc_model (noc_ctx ctx)) dst)))
   - loc_x (compressed_loc ctx (get_router_physical_location
              (get_single_noc_router (noc_model (noc_ctx ctx)) src)))"

definition flow_delta_y :: "VprContext \<Rightarrow> NocRouterId \<Rightarrow> NocRouterId \<Rightarrow> int" where
  "flow_delta_y ctx src dst =
     loc_y (compressed_loc ctx (get_router_physical_location
              (get_single_noc_router (noc_model (noc_ctx ctx)) dst)))
   - loc_y (compressed_loc ctx (get_router_physical_location
              (get_single_noc_router (noc_model (noc_ctx ctx)) src)))"

definition distance_encoded ::
  "VprContext \<Rightarrow> CpModelBuilder \<Rightarrow> t_flow_link_var_map \<Rightarrow> t_link_groups \<Rightarrow> NocTrafficFlowId \<Rightarrow> bool" where
  "distance_encoded ctx cp fv g f =
     (\<exists>src dst. flow_source_router ctx f = Some src \<and> flow_sink_router ctx f = Some dst \<and>
        plain (Equality
                 (expr_add expr_zero
                    (expr_sub (expr_sum (get_flow_link_vars fv [f] (right g)))
                              (expr_sum (get_flow_link_vars fv [f] (left g)))))
                 (expr_const (flow_delta_x ctx src dst)))
          \<in> set (constraints cp) \<and>
        plain (Equality
                 (expr_add expr_zero
                    (expr_sub (expr_sum (get_flow_link_vars fv [f] (up g)))
                              (expr_sum (get_flow_link_vars fv [f] (down g)))))
                 (expr_const (flow_delta_y ctx src dst)))
          \<in> set (constraints cp))"

definition valid_links :: "VprContext \<Rightarrow> NocLinkId list \<Rightarrow> bool" where
  "valid_links ctx ls = (\<forall>l\<in>set ls. l < n_links ctx)"

text \<open>Everything the later proofs need to know about a model that was built.\<close>

definition built ::
  "VprContext \<Rightarrow> int \<Rightarrow> t_sat_model \<Rightarrow> bool" where
  "built ctx res sat =
     (let cp = sat_cp_model sat; fv = sat_flow_link_vars sat; m = noc_model (noc_ctx ctx) in
      fv_ok cp fv {..<n_flows ctx} (n_links ctx) \<and>
      lov_ok ctx cp (sat_latency_overrun_vars sat) {..<n_flows ctx} \<and>
      (\<forall>e\<in>set (sat_latency_overrun_vars sat).
         \<exists>n. comp_max_number_of_traversed_links ctx (fst e) = Inr n \<and>
             overrun_constraint ctx fv (fst e) (snd e) n \<in> set (constraints cp)) \<and>
      (\<exists>bws. rescale_traffic_flow_bandwidths ctx res = Inr bws \<and>
         length (sat_link_congested_vars sat) = n_links ctx \<and>
         (\<forall>l<n_links ctx. \<exists>i lhs. sat_link_congested_vars sat ! l = Var (int i) \<and>
              i < length (variables cp) \<and> variables cp ! i = (0, 1) \<and>
              congestion_encoded cp res (sat_link_congested_vars sat ! l) lhs \<and>
              (\<forall>\<sigma>. eval_expr \<sigma> lhs = link_load bws fv \<sigma> [0..<n_flows ctx] l))) \<and>
      (\<forall>f<n_flows ctx. flow_continuity_encoded ctx cp fv f) \<and>
      up (sat_groups sat) = filter (is_up_link m) (get_noc_link_keys m) \<and>
      down (sat_groups sat) = filter (is_down_link m) (get_noc_link_keys m) \<and>
      right (sat_groups sat) = filter (is_right_link m) (get_noc_link_keys m) \<and>
      left (sat_groups sat) = filter (is_left_link m) (get_noc_link_keys m) \<and>
      (\<forall>f<n_flows ctx. distance_encoded ctx cp fv (sat_groups sat) f) \<and>
      (\<forall>l<n_links ctx. source_router (get_single_noc_link m l) < length (router_storage m) \<and>
                          sink_router (get_single_noc_link m l) < length (router_storage m)))"

definition uses_link :: "t_flow_link_var_map \<Rightarrow> assignment \<Rightarrow> NocTrafficFlowId \<Rightarrow> NocLinkId \<Rightarrow> bool" where
  "uses_link fv \<sigma> f l = (case fv (f, l) of Some b \<Rightarrow> bool_value \<sigma> b | None \<Rightarrow> False)"

definition activated_count ::
  "t_flow_link_var_map \<Rightarrow> assignment \<Rightarrow> NocTrafficFlowId \<Rightarrow> NocLinkId list \<Rightarrow> nat" where
  "activated_count fv \<sigma> f ls = length (filter (uses_link fv \<sigma> f) ls)"

definition link_source :: "NocStorage \<Rightarrow> NocLinkId \<Rightarrow> NocRouterId" where
  "link_source m l = source_router (get_single_noc_link m l)"

definition link_sink :: "NocStorage \<Rightarrow> NocLinkId \<Rightarrow> NocRouterId" where
  "link_sink m l = sink_router (get_single_noc_link m l)"

fun is_chain :: "NocStorage \<Rightarrow> NocLinkId list \<Rightarrow> bool" where
  "is_chain m [] = True"
| "is_chain m [l] = True"
| "is_chain m (l # l' # ls) = (link_sink m l = link_source m l' \<and> is_chain m (l' # ls))"

definition path_routers :: "NocStorage \<Rightarrow> NocLinkId list \<Rightarrow> NocRouterId list" where
  "path_routers m p = link_source m (hd p) # map (link_sink m) p"

definition simple_path :: "NocStorage \<Rightarrow> NocLinkId list \<Rightarrow> bool" where
  "simple_path m p =
     (p \<noteq> [] \<and> list_all (\<lambda>l. l < length (link_storage m)) p \<and> is_chain m p \<and>
      distinct (path_routers m p))"

definition key_selected ::
  "t_flow_link_var_map \<Rightarrow> CpSolverResponse \<Rightarrow> NocTrafficFlowId \<times> NocLinkId \<Rightarrow> bool" where
  "key_selected fv response k =
     (case fv k of Some var \<Rightarrow> SolutionBooleanValue response var | None \<Rightarrow> False)"

definition selected_links ::
  "t_flow_link_var_map \<Rightarrow> CpSolverResponse \<Rightarrow> NocTrafficFlowId \<Rightarrow> NocLinkId set" where
  "selected_links fv response f = {l. key_selected fv response (f, l)}"

definition line_ring_storage :: NocStorage where
  "line_ring_storage =
     \<lparr>router_storage =
        [\<lparr>router_user_id = 10, router_grid_position_x = 0, router_grid_position_y = 0, router_layer_position = 0\<rparr>,
         \<lparr>router_user_id = 11, router_grid_position_x = 1, router_grid_position_y = 0, router_layer_position = 0\<rparr>,
         \<lparr>router_user_id = 12, router_grid_position_x = 2, router_grid_position_y = 0, router_layer_position = 0\<rparr>],
      link_storage =
        [\<lparr>source_router = 0, sink_router = 1\<rparr>,
         \<lparr>source_router = 1, sink_router = 2\<rparr>,
         \<lparr>source_router = 2, sink_router = 0\<rparr>],
      built_noc = True,
      storage_link_bandwidth = 1, storage_link_latency = 1 / 128, storage_router_latency = 1 / 128\<rparr>"

definition line_ring_ctx :: VprContext where
  "line_ring_ctx =
     \<lparr>noc_ctx =
        \<lparr>noc_model = line_ring_storage, noc_link_bandwidth = 1, noc_link_latency = 1 / 128,
         noc_router_latency = 1 / 128,
         noc_traffic_flows_storage =
           \<lparr>list_of_noc_traffic_flows =
              [\<lparr>source_router_cluster_id = 0, sink_router_cluster_id = 1,
                traffic_flow_bandwidth = 1 / 4, max_traffic_flow_latency = 3 / 64\<rparr>],
            traffic_flow_routes = [[]],
            router_cluster_in_netlist = [0, 1]\<rparr>,
         noc_flows_router = TurnModelRouting []\<rparr>,
      block_locs = (\<lambda>b. \<lparr>loc_x = int b, loc_y = 0, layer_num = 0\<rparr>),
      compressed_loc = (\<lambda>loc. loc)\<rparr>"

definition key_order :: "t_flow_link_var_map \<Rightarrow> (NocTrafficFlowId \<times> NocLinkId) list" where
  "key_order fv = filter (\<lambda>k. fv k \<noteq> None) [(0, 2), (0, 0), (0, 1)]"

definition line_ring_cp :: CpModelBuilder where
  "line_ring_cp =
     \<lparr>variables = [(0, 20), (0, 1), (0, 1), (0, 1), (0, 1), (0, 1), (0, 1)],
      constraints =
        [\<lparr>kind = MaxEquality \<lparr>expr_terms = [(0, 1)], expr_offset = 0\<rparr>
                   [\<lparr>expr_terms = [(1, 1), (2, 1), (3, 1)], expr_offset = - 2\<rparr>,
                    \<lparr>expr_terms = [], expr_offset = 0\<rparr>],
          only_enforce_if = []\<rparr>,
         \<lparr>kind = LessOrEqual \<lparr>expr_terms = [(1, 1)], expr_offset = 0\<rparr>
                   \<lparr>expr_terms = [], expr_offset = 4\<rparr>,
          only_enforce_if = [NegVar 4]\<rparr>,
         \<lparr>kind = GreaterThan \<lparr>expr_terms = [(1, 1)], expr_offset = 0\<rparr>
                   \<lparr>expr_terms = [], expr_offset = 4\<rparr>,
          only_enforce_if = [Var 4]\<rparr>,
         \<lparr>kind = LessOrEqual \<lparr>expr_terms = [(2, 1)], expr_offset = 0\<rparr>
                   \<lparr>expr_terms = [], expr_offset = 4\<rparr>,
          only_enforce_if = [NegVar 5]\<rparr>,
         \<lparr>kind = GreaterThan \<lparr>expr_terms = [(2, 1)], expr_offset = 0\<rparr>
                   \<lparr>expr_terms = [], expr_offset = 4\<rparr>,
          only_enforce_if = [Var 5]\<rparr>,
         \<lparr>kind = LessOrEqual \<lparr>expr_terms = [(3, 1)], expr_offset = 0\<rparr>
                   \<lparr>expr_terms = [], expr_offset = 4\<rparr>,
          only_enforce_if = [NegVar 6]\<rparr>,
         \<lparr>kind = GreaterThan \<lparr>expr_terms = [(3, 1)], expr_offset = 0\<rparr>
                   \<lparr>expr_terms = [], expr_offset = 4\<rparr>,
          only_enforce_if = [Var 6]\<rparr>,
         \<lparr>kind = ExactlyOne [Var 1], only_enforce_if = []\<rparr>,
         \<lparr>kind = ExactlyOne [Var 1], only_enforce_if = []\<rparr>,
         \<lparr>kind = AtMostOne [Var 2], only_enforce_if = []\<rparr>,
         \<lparr>kind = AtMostOne [Var 3], only_enforce_if = []\<rparr>,
         \<lparr>kind = Equality \<lparr>expr_terms = [(2, 1)], expr_offset = 0\<rparr>
                   \<lparr>expr_terms = [(3, 1)], expr_offset = 0\<rparr>,
          only_enforce_if = []\<rparr>,
         \<lparr>kind = Equality \<lparr>expr_terms = [(1, 1), (2, 1), (3, - 1)], expr_offset = 0\<rparr>
                   \<lparr>expr_terms = [], expr_offset = 1\<rparr>,
          only_enforce_if = []\<rparr>,
         \<lparr>kind = Equality \<lparr>expr_terms = [], expr_offset = 0\<rparr>
                   \<lparr>expr_terms = [], expr_offset = 0\<rparr>,
          only_enforce_if = []\<rparr>],
      hints = [],
      objective =
        Some \<lparr>expr_terms = [(0, 1024), (3, 1), (1, 1), (2, 1), (4, 16384), (5, 16384), (6, 16384)],
              expr_offset = 0\<rparr>\<rparr>"

definition line_ring_sat :: t_sat_model where
  "line_ring_sat =
     \<lparr>sat_cp_model = line_ring_cp,
      sat_flow_link_vars = [(0, 0) \<mapsto> Var 1, (0, 1) \<mapsto> Var 2, (0, 2) \<mapsto> Var 3],
      sat_latency_overrun_vars = [(0, 0)],
      sat_link_congested_vars = [Var 4, Var 5, Var 6],
      sat_groups = \<lparr>up = [], down = [], right = [0, 1], left = [2]\<rparr>\<rparr>"

definition path_assignment :: assignment where
  "path_assignment = (\<lambda>i. if i = 1 then 1 else 0)"

definition cycle_assignment :: assignment where
  "cycle_assignment = (\<lambda>i. if 0 \<le> i \<and> i \<le> 3 then 1 else 0)"

definition infeasible_solver :: "CpModelBuilder \<Rightarrow> CpSolverResponse" where
  "infeasible_solver cp = \<lparr>status = INFEASIBLE, solution = (\<lambda>i. 0)\<rparr>"

definition detour_response :: CpSolverResponse where
  "detour_response = \<lparr>status = FEASIBLE, solution = (\<lambda>i. if i = 2 \<or> i = 3 then 1 else 0)\<rparr>"

definition path_solver :: "CpModelBuilder \<Rightarrow> CpSolverResponse" where
  "path_solver cp = \<lparr>status = OPTIMAL, solution = path_assignment\<rparr>"

definition out_links :: "NocStorage \<Rightarrow> NocLinkId set \<Rightarrow> NocRouterId \<Rightarrow> NocLinkId set" where
  "out_links m A r = {l \<in> A. link_source m l = r}"

definition in_links :: "NocStorage \<Rightarrow> NocLinkId set \<Rightarrow> NocRouterId \<Rightarrow> NocLinkId set" where
  "in_links m A r = {l \<in> A. link_sink m l = r}"

definition continuity_graph :: "NocStorage \<Rightarrow> NocLinkId set \<Rightarrow> NocRouterId \<Rightarrow> NocRouterId \<Rightarrow> bool" where
  "continuity_graph m A src snk =
     (finite A \<and>
      (\<forall>l\<in>A. l < length (link_storage m) \<and> link_source m l < length (router_storage m) \<and>
              link_sink m l < length (router_storage m)) \<and>
      card (out_links m A src) = 1 \<and> card (in_links m A snk) = 1 \<and>
      (\<forall>r<length (router_storage m). r \<noteq> src \<and> r \<noteq> snk \<longrightarrow>
          card (in_links m A r) \<le> 1 \<and> card (out_links m A r) \<le> 1 \<and>
          card (in_links m A r) = card (out_links m A r)))"

definition activated_links ::
  "NocStorage \<Rightarrow> t_flow_link_var_map \<Rightarrow> assignment \<Rightarrow> NocTrafficFlowId \<Rightarrow> NocLinkId list" where
  "activated_links m fv \<sigma> f = filter (uses_link fv \<sigma> f) (get_noc_link_keys m)"


definition flow_bandwidth :: "VprContext \<Rightarrow> NocTrafficFlowId \<Rightarrow> real" where
  "flow_bandwidth ctx f =
     traffic_flow_bandwidth (get_single_noc_traffic_flow (noc_traffic_flows_storage (noc_ctx ctx)) f)"

definition scaled_demand :: "VprContext \<Rightarrow> int \<Rightarrow> NocTrafficFlowId \<Rightarrow> double" where
  "scaled_demand ctx res f =
     double_mul
       (double_div (Finite (flow_bandwidth ctx f))
                   (Finite (storage_link_bandwidth (noc_model (noc_ctx ctx)))))
       (Finite (real_of_int res))"

definition bandwidth_usage ::
  "int list \<Rightarrow> t_flow_link_var_map \<Rightarrow> assignment \<Rightarrow> (NocTrafficFlowId \<times> NocLinkId) list \<Rightarrow> int" where
  "bandwidth_usage bws fv \<sigma> keys =
     sum_list (map (\<lambda>k. bws ! fst k * flow_link_value fv \<sigma> (fst k) (snd k)) keys)"

text \<open>The ring of three routers again, with the bandwidth demand of its flow, the link
  bandwidth and the resolution left open: the model that \<^verbatim>\<open>noc_sat_route\<close> builds when the
  rescaled demand of the flow is \<open>c\<close> and the resolution is \<open>budget\<close>.\<close>

definition line_ring_flow_ctx :: "real \<Rightarrow> real \<Rightarrow> VprContext" where
  "line_ring_flow_ctx demand link_bw =
     \<lparr>noc_ctx =
        \<lparr>noc_model = line_ring_storage\<lparr>storage_link_bandwidth := link_bw\<rparr>,
         noc_link_bandwidth = link_bw, noc_link_latency = 1 / 128,
         noc_router_latency = 1 / 128,
         noc_traffic_flows_storage =
           \<lparr>list_of_noc_traffic_flows =
              [\<lparr>source_router_cluster_id = 0, sink_router_cluster_id = 1,
                traffic_flow_bandwidth = demand, max_traffic_flow_latency = 3 / 64\<rparr>],
            traffic_flow_routes = [[]],
            router_cluster_in_netlist = [0, 1]\<rparr>,
         noc_flows_router = TurnModelRouting []\<rparr>,
      block_locs = (\<lambda>b. \<lparr>loc_x = int b, loc_y = 0, layer_num = 0\<rparr>),
      compressed_loc = (\<lambda>loc. loc)\<rparr>"

definition line_ring_cp_scaled :: "int \<Rightarrow> int \<Rightarrow> CpModelBuilder" where
  "line_ring_cp_scaled c budget =
     \<lparr>variables = [(0, 20), (0, 1), (0, 1), (0, 1), (0, 1), (0, 1), (0, 1)],
      constraints =
        [\<lparr>kind = MaxEquality \<lparr>expr_terms = [(0, 1)], expr_offset = 0\<rparr>
                   [\<lparr>expr_terms = [(1, 1), (2, 1), (3, 1)], expr_offset = - 2\<rparr>,
                    \<lparr>expr_terms = [], expr_offset = 0\<rparr>],
          only_enforce_if = []\<rparr>,
         \<lparr>kind = LessOrEqual \<lparr>expr_terms = [(1, c)], expr_offset = 0\<rparr>
                   \<lparr>expr_terms = [], expr_offset = budget\<rparr>,
          only_enforce_if = [NegVar 4]\<rparr>,
         \<lparr>kind = GreaterThan \<lparr>expr_terms = [(1, c)], expr_offset = 0\<rparr>
                   \<lparr>expr_terms = [], expr_offset = budget\<rparr>,
          only_enforce_if = [Var 4]\<rparr>,
         \<lparr>kind = LessOrEqual \<lparr>expr_terms = [(2, c)], expr_offset = 0\<rparr>
                   \<lparr>expr_terms = [], expr_offset = budget\<rparr>,
          only_enforce_if = [NegVar 5]\<rparr>,
         \<lparr>kind = GreaterThan \<lparr>expr_terms = [(2, c)], expr_offset = 0\<rparr>
                   \<lparr>expr_terms = [], expr_offset = budget\<rparr>,
          only_enforce_if = [Var 5]\<rparr>,
         \<lparr>kind = LessOrEqual \<lparr>expr_terms = [(3, c)], expr_offset = 0\<rparr>
                   \<lparr>expr_terms = [], expr_offset = budget\<rparr>,
          only_enforce_if = [NegVar 6]\<rparr>,
         \<lparr>kind = GreaterThan \<lparr>expr_terms = [(3, c)], expr_offset = 0\<rparr>
                   \<lparr>expr_terms = [], expr_offset = budget\<rparr>,
          only_enforce_if = [Var 6]\<rparr>,
         \<lparr>kind = ExactlyOne [Var 1], only_enforce_if = []\<rparr>,
         \<lparr>kind = ExactlyOne [Var 1], only_enforce_if = []\<rparr>,
         \<lparr>kind = AtMostOne [Var 2], only_enforce_if = []\<rparr>,
         \<lparr>kind = AtMostOne [Var 3], only_enforce_if = []\<rparr>,
         \<lparr>kind = Equality \<lparr>expr_terms = [(2, 1)], expr_offset = 0\<rparr>
                   \<lparr>expr_terms = [(3, 1)], expr_offset = 0\<rparr>,
          only_enforce_if = []\<rparr>,
         \<lparr>kind = Equality \<lparr>expr_terms = [(1, 1), (2, 1), (3, - 1)], expr_offset = 0\<rparr>
                   \<lparr>expr_terms = [], expr_offset = 1\<rparr>,
          only_enforce_if = []\<rparr>,
         \<lparr>kind = Equality \<lparr>expr_terms = [], expr_offset = 0\<rparr>
                   \<lparr>expr_terms = [], expr_offset = 0\<rparr>,
          only_enforce_if = []\<rparr>],
      hints = [],
      objective =
        Some \<lparr>expr_terms = [(0, 1024), (3, c), (1, c), (2, c), (4, 16384), (5, 16384), (6, 16384)],
              expr_offset = 0\<rparr>\<rparr>"

definition line_ring_sat_scaled :: "int \<Rightarrow> int \<Rightarrow> t_sat_model" where
  "line_ring_sat_scaled c budget =
     \<lparr>sat_cp_model = line_ring_cp_scaled c budget,
      sat_flow_link_vars = [(0, 0) \<mapsto> Var 1, (0, 1) \<mapsto> Var 2, (0, 2) \<mapsto> Var 3],
      sat_latency_overrun_vars = [(0, 0)],
      sat_link_congested_vars = [Var 4, Var 5, Var 6],
      sat_groups = \<lparr>up = [], down = [], right = [0, 1], left = [2]\<rparr>\<rparr>"

section \<open>Properties of the topology construction\<close>










lemma sqrt_above: "0 \<le> y \<Longrightarrow> y ^ 2 < x \<Longrightarrow> \<not> sqrt x < y \<and> sqrt x \<noteq> y"
  by (metis not_less_iff_gr_or_eq real_less_rsqrt)

text \<open>
  Outside that range the search can miss a tie.  A logical router declared at \<open>(2^64, 1)\<close>
  is at the same distance \<open>sqrt (2^128 + 1)\<close> from the tiles at \<open>(0, 0)\<close> and \<open>(0, 2)\<close>; this
  is not below the start value \<^verbatim>\<open>LLONG_MAX\<close> of the search, no tile replaces it, no tie is
  recorded, and the router is assigned to tile 0.
\<close>

lemma create_noc_routers_far_router:
  "euclidean_distance far_example_router (far_example_tiles ! 0) =
     euclidean_distance far_example_router (far_example_tiles ! 1) \<and>
   create_noc_routers (example_noc_info far_example_router) empty_noc_storage far_example_tiles =
     Inr (add_router empty_noc_storage 7 0 0)"
proof -
  have far: "\<not> sqrt 340282366920938463463374607431768211457 < (9223372036854775807::real) \<and>
             sqrt 340282366920938463463374607431768211457 \<noteq> (9223372036854775807::real)"
    by (rule sqrt_above) simp_all
  show ?thesis
    using far
    by (simp add: create_noc_routers_def assign_logical_router_def example_noc_info_def
        far_example_router_def far_example_tiles_def euclidean_distance_def LLONG_MAX_def
        initial_search_def isclose_def Let_def in_range_def
        INVALID_PHYSICAL_ROUTER_INDEX_def PHYSICAL_ROUTER_NOT_ASSIGNED_def)
qed

text \<open>
  Claim C7, evaluated at a failing input.  A 1-by-1 device whose only tile is not a router
  tile yields zero discovered tiles; with one declared logical router, \<^verbatim>\<open>setup_noc\<close> raises
  the error of the first branch (more routers declared than available), not the error
  written for the case that no physical router tile was found: that third branch is tested
  only after the two size comparisons and is reached only when the declared router list
  is empty as well.  The NoC context is unchanged: nothing has been created.
\<close>

theorem setup_noc_zero_tiles_one_router:
  "identify_and_store_noc_router_tile_positions no_router_grid [] ''noc_router'' = [] \<and>
   setup_noc \<lparr>noc = Some (example_noc_info tie_example_router)\<rparr> no_router_grid example_noc_ctx =
     Inl (MoreRoutersThanAvailable, example_noc_ctx)"
  by (simp add: setup_noc_def identify_and_store_noc_router_tile_positions_def
      tile_position_at_def no_router_grid_def example_noc_info_def Let_def)

section \<open>Properties of the SAT-based router\<close>

subsection \<open>Binary64 arithmetic\<close>

lemma exponent_up_numeral:
  "exponent_up (numeral k) x e =
     (if x < 2 then e else exponent_up (pred_numeral k) (x / 2) (e + 1))"
  by (simp add: numeral_eq_Suc)

lemma exponent_down_numeral:
  "exponent_down (numeral k) x e =
     (if 1 \<le> x then e else exponent_down (pred_numeral k) (2 * x) (e - 1))"
  by (simp add: numeral_eq_Suc)

lemmas binary64_defs =
  to_double_def round_binary64_def binary64_exponent_def round_half_even_def pow2_def
  exponent_up_numeral exponent_down_numeral double_add_def double_sub_def

lemma floor_to_int_result:
  "floor_to_int d = Inr n \<Longrightarrow> \<exists>x. d = Finite x \<and> n = \<lfloor>x\<rfloor>"
  by (cases d) (simp_all split: if_splits)

lemma floor_to_int_error:
  "floor_to_int d = Inl e \<Longrightarrow> e = FloatToIntUndefined"
  by (cases d) (simp_all split: if_splits)

subsection \<open>Linear expressions\<close>

lemma eval_expr_zero [simp]: "eval_expr \<sigma> expr_zero = 0"
  by (simp add: eval_expr_def expr_zero_def)

lemma eval_expr_const [simp]: "eval_expr \<sigma> (expr_const c) = c"
  by (simp add: eval_expr_def expr_const_def)

lemma eval_expr_int_var [simp]: "eval_expr \<sigma> (expr_int_var v) = \<sigma> v"
  by (simp add: eval_expr_def expr_int_var_def)

lemma eval_expr_term [simp]: "eval_expr \<sigma> (expr_term b k) = k * bool_int \<sigma> b"
  by (cases b) (simp_all add: eval_expr_def algebra_simps)

lemma eval_expr_add [simp]: "eval_expr \<sigma> (expr_add a b) = eval_expr \<sigma> a + eval_expr \<sigma> b"
  by (simp add: eval_expr_def expr_add_def)

lemma eval_expr_scale [simp]: "eval_expr \<sigma> (expr_scale k a) = k * eval_expr \<sigma> a"
proof -
  have "sum_list (map ((\<lambda>(i, c). c * \<sigma> i) \<circ> (\<lambda>(i, c). (i, k * c))) ts) =
        k * sum_list (map (\<lambda>(i, c). c * \<sigma> i) ts)" for ts
    by (induction ts) (auto simp: algebra_simps)
  then show ?thesis by (simp add: eval_expr_def expr_scale_def algebra_simps)
qed

lemma eval_expr_sub [simp]: "eval_expr \<sigma> (expr_sub a b) = eval_expr \<sigma> a - eval_expr \<sigma> b"
  by (simp add: expr_sub_def)

lemma eval_expr_sum_aux:
  "eval_expr \<sigma> (foldl (\<lambda>e b. expr_add e (expr_term b 1)) e0 bs) =
   eval_expr \<sigma> e0 + sum_list (map (bool_int \<sigma>) bs)"
  by (induction bs arbitrary: e0) simp_all

lemma eval_expr_sum [simp]: "eval_expr \<sigma> (expr_sum bs) = sum_list (map (bool_int \<sigma>) bs)"
  by (simp add: expr_sum_def eval_expr_sum_aux)

lemma sum_bool_int_count:
  "\<forall>b\<in>set bs. is_bool \<sigma> b \<Longrightarrow> sum_list (map (bool_int \<sigma>) bs) = int (count_true \<sigma> bs)"
  by (induction bs) (auto simp: count_true_def bool_value_def is_bool_def)

subsection \<open>Growth of the model\<close>

lemma extends_refl [simp]: "extends cp cp"
  by (simp add: extends_def)

lemma extends_trans: "extends a b \<Longrightarrow> extends b c \<Longrightarrow> extends a c"
  by (auto simp: extends_def)

lemma in_domains_append: "in_domains \<sigma> (ds @ es) \<Longrightarrow> in_domains \<sigma> ds"
proof -
  assume a: "in_domains \<sigma> (ds @ es)"
  have "fst (ds ! i) \<le> \<sigma> (int i) \<and> \<sigma> (int i) \<le> snd (ds ! i)" if "i < length ds" for i
  proof -
    have "i \<in> set [0..<length (ds @ es)]" using that by simp
    then have "fst ((ds @ es) ! i) \<le> \<sigma> (int i) \<and> \<sigma> (int i) \<le> snd ((ds @ es) ! i)"
      using a unfolding in_domains_def list_all_iff by blast
    then show ?thesis using that by (simp add: nth_append)
  qed
  then show ?thesis by (simp add: in_domains_def list_all_iff)
qed

lemma feasible_extends: "extends cp cp' \<Longrightarrow> feasible \<sigma> cp' \<Longrightarrow> feasible \<sigma> cp"
  by (auto simp: extends_def feasible_def dest: in_domains_append)

lemma extends_add_constraint [simp]: "extends cp (add_constraint k cp)"
  by (simp add: extends_def add_constraint_def)

lemma extends_add_constraint_if [simp]: "extends cp (add_constraint_if k b cp)"
  by (simp add: extends_def add_constraint_if_def)

lemma extends_NewBoolVar [simp]: "extends cp (snd (NewBoolVar cp))"
  by (simp add: extends_def NewBoolVar_def)

lemma extends_NewIntVar [simp]: "extends cp (snd (NewIntVar d cp))"
  by (simp add: extends_def NewIntVar_def)

lemma feasible_constraint:
  "feasible \<sigma> cp \<Longrightarrow> c \<in> set (constraints cp) \<Longrightarrow> satisfied \<sigma> c"
  by (simp add: feasible_def list_all_iff)

lemma feasible_plain_constraint:
  "feasible \<sigma> cp \<Longrightarrow> \<lparr>kind = k, only_enforce_if = []\<rparr> \<in> set (constraints cp) \<Longrightarrow> holds \<sigma> k"
  by (drule (1) feasible_constraint) (simp add: satisfied_def)

lemma extends_constraint:
  "extends cp cp' \<Longrightarrow> c \<in> set (constraints cp) \<Longrightarrow> c \<in> set (constraints cp')"
  by (auto simp: extends_def)

lemma feasible_domain:
  "feasible \<sigma> cp \<Longrightarrow> i < length (variables cp) \<Longrightarrow>
   fst (variables cp ! i) \<le> \<sigma> (int i) \<and> \<sigma> (int i) \<le> snd (variables cp ! i)"
  by (simp add: feasible_def in_domains_def list_all_iff)

subsection \<open>The flow-link variables\<close>

lemma fv_ok_extends: "fv_ok cp fv F nL \<Longrightarrow> extends cp cp' \<Longrightarrow> fv_ok cp' fv F nL"
  unfolding fv_ok_def extends_def by (fastforce simp: nth_append)

lemma fv_ok_is_bool:
  assumes "fv_ok cp fv F nL" "feasible \<sigma> cp" "f \<in> F" "l < nL"
  shows "\<exists>b. fv (f, l) = Some b \<and> is_bool \<sigma> b"
proof -
  obtain i where i: "fv (f, l) = Some (Var (int i))" "i < length (variables cp)"
      "variables cp ! i = (0, 1)"
    using assms(1,3,4) unfolding fv_ok_def by blast
  have "0 \<le> \<sigma> (int i) \<and> \<sigma> (int i) \<le> 1" using feasible_domain[OF assms(2) i(2)] i(3) by simp
  then show ?thesis using i(1) by (auto simp: is_bool_def)
qed

lemma create_link_vars_cp:
  "fst (create_link_vars f ls st) =
     (fst st)\<lparr>variables := variables (fst st) @ replicate (length ls) (0, 1)\<rparr>"
proof (induction ls arbitrary: st)
  case Nil
  then show ?case by simp
next
  case (Cons l ls)
  show ?case
    by (simp add: Cons.IH NewBoolVar_def split_def Let_def replicate_app_Cons_same)
qed

lemma create_link_vars_other:
  "\<not> (fst k = f \<and> snd k \<in> set ls) \<Longrightarrow> snd (create_link_vars f ls st) k = snd st k"
  by (induction ls arbitrary: st) (auto simp: split_def Let_def)

lemma create_link_vars_new:
  "l \<in> set ls \<Longrightarrow>
   \<exists>i. snd (create_link_vars f ls st) (f, l) = Some (Var (int i)) \<and>
       length (variables (fst st)) \<le> i \<and> i < length (variables (fst st)) + length ls"
proof (induction ls arbitrary: st)
  case Nil
  then show ?case by simp
next
  case (Cons h ls)
  let ?st1 = "(snd (NewBoolVar (fst st)), (snd st)((f, h) \<mapsto> fst (NewBoolVar (fst st))))"
  have step: "create_link_vars f (h # ls) st = create_link_vars f ls ?st1"
    by (simp add: split_def Let_def)
  show ?case
  proof (cases "l \<in> set ls")
    case True
    from Cons.IH[OF True, of ?st1] show ?thesis
      unfolding step by (auto simp: NewBoolVar_def)
  next
    case False
    then have "l = h" using Cons.prems by simp
    then have "snd (create_link_vars f ls ?st1) (f, l) = snd ?st1 (f, l)"
      using False by (intro create_link_vars_other) simp
    then show ?thesis unfolding step using \<open>l = h\<close> by (auto simp: NewBoolVar_def)
  qed
qed

lemma set_ordered_map_put_subset: "set (ordered_map_put k v m) \<subseteq> insert (k, v) (set m)"
  by (induction m) (auto split: if_splits)

lemma ordered_map_put_mem: "(k, v) \<in> set (ordered_map_put k v m)"
  by (induction m) auto

lemma ordered_map_put_keys: "fst ` set (ordered_map_put k v m) = insert k (fst ` set m)"
proof (induction m)
  case Nil
  then show ?case by simp
next
  case (Cons a m)
  then show ?case by (cases a) (simp add: insert_commute)
qed

lemma ordered_map_put_sorted:
  "sorted_wrt (<) (map fst m) \<Longrightarrow> sorted_wrt (<) (map fst (ordered_map_put k v m))"
proof (induction m)
  case Nil
  then show ?case by simp
next
  case (Cons a m)
  have keys: "set (map fst (ordered_map_put k v m)) = insert k (set (map fst m))"
    using ordered_map_put_keys[of k v m] by simp
  show ?case
  proof (cases "k < fst a")
    case True
    then show ?thesis using Cons.prems by (cases a) auto
  next
    case False
    show ?thesis
    proof (cases "k = fst a")
      case True
      then show ?thesis using Cons.prems by (cases a) auto
    next
      case ne: False
      then have "fst a < k" using False by simp
      then show ?thesis
        using Cons ne False keys by (cases a) (auto simp del: set_map)
    qed
  qed
qed

lemma create_flow_link_vars_loop_unfold:
  "create_flow_link_vars_loop ctx (f # fs) st =
   create_flow_link_vars_loop ctx fs (create_flow_link_vars_loop ctx [f] st)"
  by (simp add: Let_def split_def)

lemma create_flow_link_vars_step:
  assumes fv: "fv_ok cp fv D (n_links ctx)" and lov: "lov_ok ctx cp lov D"
  shows "fv_ok (fst (create_flow_link_vars_loop ctx [f] (cp, fv, lov)))
           (fst (snd (create_flow_link_vars_loop ctx [f] (cp, fv, lov)))) (insert f D) (n_links ctx)
       \<and> lov_ok ctx (fst (create_flow_link_vars_loop ctx [f] (cp, fv, lov)))
           (snd (snd (create_flow_link_vars_loop ctx [f] (cp, fv, lov)))) (insert f D)
       \<and> constraints (fst (create_flow_link_vars_loop ctx [f] (cp, fv, lov))) = constraints cp
       \<and> (\<exists>vs. variables (fst (create_flow_link_vars_loop ctx [f] (cp, fv, lov))) = variables cp @ vs)"
proof -
  define c where "c = (flow_latency ctx f < 1 / 10)"
  define cp1 where "cp1 = (if c then snd (NewIntVar (0, 20) cp) else cp)"
  define lov1 where "lov1 = (if c then ordered_map_put f (fst (NewIntVar (0, 20) cp)) lov else lov)"
  define links where "links = get_noc_link_keys (noc_model (noc_ctx ctx))"
  define cp2 where "cp2 = fst (create_link_vars f links (cp1, fv))"
  define fv2 where "fv2 = snd (create_link_vars f links (cp1, fv))"
  have res: "create_flow_link_vars_loop ctx [f] (cp, fv, lov) = (cp2, fv2, lov1)"
    by (simp add: Let_def split_def cp2_def fv2_def cp1_def lov1_def links_def c_def flow_latency_def)
  have v1: "variables cp1 = variables cp @ (if c then [(0, 20)] else [])"
    by (simp add: cp1_def NewIntVar_def)
  have c1: "constraints cp1 = constraints cp" by (simp add: cp1_def NewIntVar_def)
  have cp2: "cp2 = cp1\<lparr>variables := variables cp1 @ replicate (length links) (0, 1)\<rparr>"
    by (simp add: cp2_def create_link_vars_cp)
  have v2: "variables cp2 = variables cp @ (if c then [(0, 20)] else []) @ replicate (length links) (0, 1)"
    by (simp add: cp2 v1)
  have ext: "extends cp cp2" by (simp add: extends_def cp2 c1 v1)
  have links: "set links = {..<n_links ctx}"
    by (auto simp: links_def get_noc_link_keys_def n_links_def)
  have A: "fv_ok cp2 fv2 (insert f D) (n_links ctx)"
    unfolding fv_ok_def
  proof (intro ballI allI impI)
    fix g l assume g: "g \<in> insert f D" and l: "l < n_links ctx"
    show "\<exists>i. fv2 (g, l) = Some (Var (int i)) \<and> i < length (variables cp2) \<and> variables cp2 ! i = (0, 1)"
    proof (cases "g = f")
      case True
      have "l \<in> set links" using l links by simp
      from create_link_vars_new[OF this, of f "(cp1, fv)"]
      obtain i where i: "fv2 (f, l) = Some (Var (int i))" "length (variables cp1) \<le> i"
          "i < length (variables cp1) + length links"
        by (auto simp: fv2_def)
      have "variables cp2 ! i = (0, 1)" using i(2,3) by (simp add: cp2 nth_append)
      moreover have "i < length (variables cp2)" using i(3) by (simp add: cp2)
      ultimately show ?thesis using i(1) True by blast
    next
      case False
      then have gD: "g \<in> D" using g by simp
      have "fv2 (g, l) = fv (g, l)"
        unfolding fv2_def using False by (subst create_link_vars_other) simp_all
      moreover have "fv_ok cp2 fv D (n_links ctx)" by (rule fv_ok_extends[OF fv ext])
      ultimately show ?thesis using gD l unfolding fv_ok_def by simp
    qed
  qed
  have old: "\<exists>i. snd e = int i \<and> i < length (variables cp2) \<and> variables cp2 ! i = (0, 20)"
    if "\<exists>i. snd e = int i \<and> i < length (variables cp) \<and> variables cp ! i = (0, 20)" for e :: "nat \<times> int"
    using that by (auto simp: v2 nth_append)
  have B: "lov_ok ctx cp2 lov1 (insert f D)"
  proof (cases c)
    case True
    have new: "\<exists>i. fst (NewIntVar (0, 20) cp) = int i \<and> i < length (variables cp2) \<and>
                  variables cp2 ! i = (0, 20)"
      using True by (auto simp: NewIntVar_def v2 nth_append)
    have sub: "set lov1 \<subseteq> insert (f, fst (NewIntVar (0, 20) cp)) (set lov)"
      using True by (simp add: lov1_def set_ordered_map_put_subset)
    have keys: "fst ` set lov1 = insert f (fst ` set lov)"
      using True by (simp add: lov1_def ordered_map_put_keys)
    have srt: "sorted_wrt (<) (map fst lov1)"
      using True lov by (simp add: lov1_def lov_ok_def ordered_map_put_sorted)
    show ?thesis
      unfolding lov_ok_def
    proof (intro conjI[OF _ conjI[OF _ srt]] ballI impI)
      fix e assume "e \<in> set lov1"
      then consider "e = (f, fst (NewIntVar (0, 20) cp))" | "e \<in> set lov" using sub by auto
      then show "fst e \<in> insert f D \<and> flow_latency ctx (fst e) < 1 / 10 \<and>
          (\<exists>i. snd e = int i \<and> i < length (variables cp2) \<and> variables cp2 ! i = (0, 20))"
      proof cases
        case 1
        then show ?thesis using new True by (simp add: c_def)
      next
        case 2
        then show ?thesis using lov old[of e] unfolding lov_ok_def by auto
      qed
    next
      fix g assume "g \<in> insert f D" "flow_latency ctx g < 1 / 10"
      then show "g \<in> fst ` set lov1" using lov unfolding lov_ok_def keys by auto
    qed
  next
    case False
    then have l1: "lov1 = lov" by (simp add: lov1_def)
    have srt: "sorted_wrt (<) (map fst lov)" using lov by (simp add: lov_ok_def)
    show ?thesis
      unfolding lov_ok_def l1
    proof (intro conjI[OF _ conjI[OF _ srt]] ballI impI)
      fix e assume "e \<in> set lov"
      then show "fst e \<in> insert f D \<and> flow_latency ctx (fst e) < 1 / 10 \<and>
          (\<exists>i. snd e = int i \<and> i < length (variables cp2) \<and> variables cp2 ! i = (0, 20))"
        using lov old[of e] unfolding lov_ok_def by auto
    next
      fix g assume "g \<in> insert f D" "flow_latency ctx g < 1 / 10"
      then show "g \<in> fst ` set lov" using lov False unfolding lov_ok_def c_def by auto
    qed
  qed
  have C: "constraints cp2 = constraints cp" by (simp add: cp2 c1)
  show ?thesis unfolding res using A B C v2 by simp
qed

lemma create_flow_link_vars_loop_inv:
  assumes "fv_ok (fst st) (fst (snd st)) D (n_links ctx)" "lov_ok ctx (fst st) (snd (snd st)) D"
  shows "fv_ok (fst (create_flow_link_vars_loop ctx fs st))
           (fst (snd (create_flow_link_vars_loop ctx fs st))) (D \<union> set fs) (n_links ctx)
       \<and> lov_ok ctx (fst (create_flow_link_vars_loop ctx fs st))
           (snd (snd (create_flow_link_vars_loop ctx fs st))) (D \<union> set fs)
       \<and> constraints (fst (create_flow_link_vars_loop ctx fs st)) = constraints (fst st)"
  using assms
proof (induction fs arbitrary: st D)
  case Nil
  then show ?case by simp
next
  case (Cons f fs)
  obtain cp fv lov where st: "st = (cp, fv, lov)" by (cases st) auto
  let ?st1 = "create_flow_link_vars_loop ctx [f] (cp, fv, lov)"
  from create_flow_link_vars_step[of cp fv D ctx lov f] Cons.prems
  have s1: "fv_ok (fst ?st1) (fst (snd ?st1)) (insert f D) (n_links ctx)"
      "lov_ok ctx (fst ?st1) (snd (snd ?st1)) (insert f D)"
      "constraints (fst ?st1) = constraints cp"
    unfolding st by simp_all
  from Cons.IH[OF s1(1,2)] s1(3)
  show ?case
    unfolding st create_flow_link_vars_loop_unfold[of ctx f fs] by simp
qed

lemma create_flow_link_vars_empty:
  assumes "create_flow_link_vars ctx empty_cp_model Map.empty [] = (cp1, fv1, lov)"
  shows "fv_ok cp1 fv1 {..<n_flows ctx} (n_links ctx)"
    and "lov_ok ctx cp1 lov {..<n_flows ctx}"
    and "constraints cp1 = []"
proof -
  have r: "fv_ok (fst (create_flow_link_vars_loop ctx [0..<n_flows ctx] (empty_cp_model, Map.empty, [])))
           (fst (snd (create_flow_link_vars_loop ctx [0..<n_flows ctx] (empty_cp_model, Map.empty, []))))
           ({} \<union> set [0..<n_flows ctx]) (n_links ctx)
       \<and> lov_ok ctx (fst (create_flow_link_vars_loop ctx [0..<n_flows ctx] (empty_cp_model, Map.empty, [])))
           (snd (snd (create_flow_link_vars_loop ctx [0..<n_flows ctx] (empty_cp_model, Map.empty, []))))
           ({} \<union> set [0..<n_flows ctx])
       \<and> constraints (fst (create_flow_link_vars_loop ctx [0..<n_flows ctx] (empty_cp_model, Map.empty, [])))
           = constraints (fst (empty_cp_model, Map.empty, []))"
    using create_flow_link_vars_loop_inv[where st = "(empty_cp_model, Map.empty, [])" and D = "{}"
        and ctx = ctx and fs = "[0..<n_flows ctx]"]
    by (simp add: fv_ok_def lov_ok_def)
  have eq: "create_flow_link_vars_loop ctx [0..<n_flows ctx] (empty_cp_model, Map.empty, []) = (cp1, fv1, lov)"
    using assms by (simp add: create_flow_link_vars_def get_all_traffic_flow_id_def n_flows_def)
  have s: "{} \<union> set [0..<n_flows ctx] = {..<n_flows ctx}" by auto
  from r show "fv_ok cp1 fv1 {..<n_flows ctx} (n_links ctx)" "lov_ok ctx cp1 lov {..<n_flows ctx}"
    "constraints cp1 = []"
    unfolding eq s by (simp_all add: empty_cp_model_def)
qed

subsection \<open>Lookups through the subscript keep the entries of the map\<close>

lemma flow_link_var_at_le: "m \<subseteq>\<^sub>m snd (flow_link_var_at m k)"
  by (auto simp: flow_link_var_at_def map_le_def split: option.splits)

lemma flow_link_var_at_defined:
  "m k = Some v \<Longrightarrow> flow_link_var_at m k = (v, m)"
  by (simp add: flow_link_var_at_def)

lemma fv_ok_map_le: "fv_ok cp fv F nL \<Longrightarrow> fv \<subseteq>\<^sub>m fv' \<Longrightarrow> fv_ok cp fv' F nL"
  unfolding fv_ok_def map_le_def by (metis domI)

lemma fv_ok_defined: "fv_ok cp fv F nL \<Longrightarrow> f \<in> F \<Longrightarrow> l < nL \<Longrightarrow> \<exists>b. fv (f, l) = Some b"
  unfolding fv_ok_def by blast

lemma map_le_same: "fv \<subseteq>\<^sub>m fv' \<Longrightarrow> fv k = Some b \<Longrightarrow> fv' k = Some b"
  unfolding map_le_def by (metis domI)

subsection \<open>forbid_illegal_turns\<close>

lemma forbid_turn_for_flows_grows:
  "fst st \<subseteq>\<^sub>m fst (forbid_turn_for_flows t fs st) \<and>
   extends (snd st) (snd (forbid_turn_for_flows t fs st))"
proof (induction fs arbitrary: st)
  case Nil
  then show ?case by simp
next
  case (Cons f fs)
  let ?fv1 = "snd (flow_link_var_at (fst st) (f, fst t))"
  let ?fv2 = "snd (flow_link_var_at ?fv1 (f, snd t))"
  let ?cp1 = "add_constraint (BoolOr [bool_not (fst (flow_link_var_at (fst st) (f, fst t))),
                                       bool_not (fst (flow_link_var_at ?fv1 (f, snd t)))]) (snd st)"
  have step: "forbid_turn_for_flows t (f # fs) st = forbid_turn_for_flows t fs (?fv2, ?cp1)"
    by (simp add: split_def Let_def)
  have a: "fst st \<subseteq>\<^sub>m ?fv2"
    by (rule map_le_trans[OF flow_link_var_at_le flow_link_var_at_le])
  have b: "extends (snd st) ?cp1" by simp
  from Cons.IH[of "(?fv2, ?cp1)"]
  have ih: "?fv2 \<subseteq>\<^sub>m fst (forbid_turn_for_flows t fs (?fv2, ?cp1))"
    "extends ?cp1 (snd (forbid_turn_for_flows t fs (?fv2, ?cp1)))"
    by simp_all
  show ?case
    unfolding step using map_le_trans[OF a ih(1)] extends_trans[OF b ih(2)] by blast
qed

lemma forbid_illegal_turns_loop_grows:
  "fst st \<subseteq>\<^sub>m fst (forbid_illegal_turns_loop ts fs st) \<and>
   extends (snd st) (snd (forbid_illegal_turns_loop ts fs st))"
proof (induction ts arbitrary: st)
  case Nil
  then show ?case by simp
next
  case (Cons t ts)
  show ?case
    using Cons.IH[of "forbid_turn_for_flows t fs st"] forbid_turn_for_flows_grows[of st t fs]
    by (simp del: extends_refl) (blast intro: map_le_trans extends_trans)
qed

lemma forbid_illegal_turns_grows:
  "forbid_illegal_turns ctx fv cp = Inr (fv', cp') \<Longrightarrow> fv \<subseteq>\<^sub>m fv' \<and> extends cp cp'"
proof -
  assume a: "forbid_illegal_turns ctx fv cp = Inr (fv', cp')"
  then obtain ts where "forbid_illegal_turns_loop ts
      (get_all_traffic_flow_id (noc_traffic_flows_storage (noc_ctx ctx))) (fv, cp) = (fv', cp')"
    by (auto simp: forbid_illegal_turns_def split: NocRouting.splits)
  then show ?thesis
    using forbid_illegal_turns_loop_grows[of "(fv, cp)" ts
        "get_all_traffic_flow_id (noc_traffic_flows_storage (noc_ctx ctx))"]
    by simp
qed

subsection \<open>Solution hints\<close>

lemma add_route_hints_grows:
  "fst st \<subseteq>\<^sub>m fst (add_route_hints f ls st) \<and>
   variables (snd (add_route_hints f ls st)) = variables (snd st) \<and>
   constraints (snd (add_route_hints f ls st)) = constraints (snd st)"
proof (induction ls arbitrary: st)
  case Nil
  then show ?case by simp
next
  case (Cons l ls)
  let ?st1 = "(snd (flow_link_var_at (fst st) (f, l)),
               AddHint (fst (flow_link_var_at (fst st) (f, l))) True (snd st))"
  have step: "add_route_hints f (l # ls) st = add_route_hints f ls ?st1"
    by (simp add: split_def Let_def)
  show ?case
    unfolding step using Cons.IH[of ?st1] flow_link_var_at_le[of "fst st" "(f, l)"]
    by (auto intro: map_le_trans simp: AddHint_def)
qed

lemma add_hints_loop_grows:
  "fst st \<subseteq>\<^sub>m fst (add_hints_loop s fs st) \<and>
   variables (snd (add_hints_loop s fs st)) = variables (snd st) \<and>
   constraints (snd (add_hints_loop s fs st)) = constraints (snd st)"
proof (induction fs arbitrary: st)
  case Nil
  then show ?case by simp
next
  case (Cons f fs)
  show ?case
    using Cons.IH[of "add_route_hints f (get_traffic_flow_route s f) st"]
      add_route_hints_grows[of st f "get_traffic_flow_route s f"]
    by (auto intro: map_le_trans)
qed

subsection \<open>constrain_latency_overrun_vars\<close>

lemma constrain_latency_overrun_vars_loop_adds:
  "constrain_latency_overrun_vars_loop ctx fv lov cp = Inr cp' \<Longrightarrow>
   extends cp cp' \<and>
   (\<forall>e\<in>set lov. \<exists>n. comp_max_number_of_traversed_links ctx (fst e) = Inr n \<and>
        overrun_constraint ctx fv (fst e) (snd e) n \<in> set (constraints cp'))"
proof (induction lov arbitrary: cp)
  case Nil
  then show ?case by simp
next
  case (Cons e lov)
  from Cons.prems obtain n where n: "comp_max_number_of_traversed_links ctx (fst e) = Inr n"
    by (auto split: sum.splits)
  let ?cp1 = "add_constraint (kind (overrun_constraint ctx fv (fst e) (snd e) n)) cp"
  have rest: "constrain_latency_overrun_vars_loop ctx fv lov ?cp1 = Inr cp'"
    using Cons.prems n by (simp add: Let_def overrun_constraint_def)
  from Cons.IH[OF rest] have ih: "extends ?cp1 cp'"
      "\<forall>e\<in>set lov. \<exists>n. comp_max_number_of_traversed_links ctx (fst e) = Inr n \<and>
        overrun_constraint ctx fv (fst e) (snd e) n \<in> set (constraints cp')"
    by simp_all
  have "overrun_constraint ctx fv (fst e) (snd e) n \<in> set (constraints ?cp1)"
    by (simp add: add_constraint_def overrun_constraint_def)
  then have "overrun_constraint ctx fv (fst e) (snd e) n \<in> set (constraints cp')"
    using ih(1) by (rule extends_constraint[rotated])
  moreover have "extends cp cp'" using ih(1) by (rule extends_trans[rotated]) simp
  ultimately show ?case using ih(2) n by auto
qed

subsection \<open>create_congested_link_vars\<close>

lemma congestion_lhs_defined:
  "\<forall>f\<in>set fs. fv (f, l) \<noteq> None \<Longrightarrow>
   snd (congestion_lhs bws l fs (e, fv)) = fv \<and>
   eval_expr \<sigma> (fst (congestion_lhs bws l fs (e, fv))) = eval_expr \<sigma> e + link_load bws fv \<sigma> fs l"
proof (induction fs arbitrary: e)
  case Nil
  then show ?case by (simp add: link_load_def)
next
  case (Cons f fs)
  then obtain b where b: "fv (f, l) = Some b" by auto
  have step: "congestion_lhs bws l (f # fs) (e, fv) =
              congestion_lhs bws l fs (expr_add e (expr_term b (bws ! f)), fv)"
    using flow_link_var_at_defined[of fv "(f, l)" b] b by simp
  show ?case
    unfolding step using Cons.IH[of "expr_add e (expr_term b (bws ! f))"] Cons.prems b
    by (simp add: link_load_def flow_link_value_def)
qed

lemma congestion_encoded_extends:
  "congestion_encoded cp res c lhs \<Longrightarrow> extends cp cp' \<Longrightarrow> congestion_encoded cp' res c lhs"
  by (auto simp: congestion_encoded_def dest: extends_constraint)

lemma create_congested_link_vars_loop_adds:
  assumes "\<forall>f\<in>set fs. \<forall>l\<in>set ls. fv (f, l) \<noteq> None"
  shows "\<exists>more cp'. create_congested_link_vars_loop bws res fs ls (cvars, fv, cp) = (cvars @ more, fv, cp')
           \<and> length more = length ls \<and> extends cp cp'
           \<and> (\<forall>j<length ls. \<exists>i lhs. more ! j = Var (int i) \<and> i < length (variables cp') \<and>
                  variables cp' ! i = (0, 1) \<and> congestion_encoded cp' res (more ! j) lhs \<and>
                  (\<forall>\<sigma>. eval_expr \<sigma> lhs = link_load bws fv \<sigma> fs (ls ! j)))"
  using assms
proof (induction ls arbitrary: cvars cp)
  case Nil
  then show ?case by simp
next
  case (Cons l ls)
  define lhs where "lhs = fst (congestion_lhs bws l fs (expr_zero, fv))"
  define n where "n = length (variables cp)"
  define c where "c = Var (int n)"
  define cp1 where "cp1 = cp\<lparr>variables := variables cp @ [(0, 1)]\<rparr>"
  define cp3 where "cp3 =
     add_constraint_if (GreaterThan lhs (expr_const res)) c
       (add_constraint_if (LessOrEqual lhs (expr_const res)) (bool_not c) cp1)"
  have def: "\<forall>f\<in>set fs. fv (f, l) \<noteq> None" using Cons.prems by simp
  have lhs_fv: "snd (congestion_lhs bws l fs (expr_zero, fv)) = fv"
    and lhs_eval: "\<And>\<sigma>. eval_expr \<sigma> lhs = link_load bws fv \<sigma> fs l"
    using congestion_lhs_defined[OF def, of bws expr_zero] by (simp_all add: lhs_def)
  have step: "create_congested_link_vars_loop bws res fs (l # ls) (cvars, fv, cp) =
              create_congested_link_vars_loop bws res fs ls (cvars @ [c], fv, cp3)"
    by (simp add: Let_def split_def lhs_fv NewBoolVar_def lhs_def c_def n_def cp3_def cp1_def)
  have rest: "\<forall>f\<in>set fs. \<forall>l\<in>set ls. fv (f, l) \<noteq> None" using Cons.prems by simp
  from Cons.IH[OF rest, of "cvars @ [c]" cp3]
  obtain more cp' where ih:
      "create_congested_link_vars_loop bws res fs ls (cvars @ [c], fv, cp3) = ((cvars @ [c]) @ more, fv, cp')"
      "length more = length ls" "extends cp3 cp'"
      "\<forall>j<length ls. \<exists>i lhs. more ! j = Var (int i) \<and> i < length (variables cp') \<and>
                  variables cp' ! i = (0, 1) \<and> congestion_encoded cp' res (more ! j) lhs \<and>
                  (\<forall>\<sigma>. eval_expr \<sigma> lhs = link_load bws fv \<sigma> fs (ls ! j))"
    by blast
  have ext3: "extends cp cp3"
    by (simp add: extends_def cp3_def cp1_def add_constraint_if_def)
  have ext: "extends cp cp'" by (rule extends_trans[OF ext3 ih(3)])
  have v3: "variables cp3 = variables cp @ [(0, 1)]"
    by (simp add: cp3_def cp1_def add_constraint_if_def)
  obtain vs where vs: "variables cp' = (variables cp @ [(0, 1)]) @ vs"
    using ih(3) v3 unfolding extends_def by auto
  have n_lt: "n < length (variables cp')" and n_dom: "variables cp' ! n = (0, 1)"
    using vs by (simp_all add: n_def nth_append)
  have enc3: "congestion_encoded cp3 res c lhs"
    by (simp add: congestion_encoded_def cp3_def add_constraint_if_def)
  have enc: "congestion_encoded cp' res c lhs"
    by (rule congestion_encoded_extends[OF enc3 ih(3)])
  have all: "\<forall>j<length (l # ls). \<exists>i lhs. (c # more) ! j = Var (int i) \<and> i < length (variables cp') \<and>
                  variables cp' ! i = (0, 1) \<and> congestion_encoded cp' res ((c # more) ! j) lhs \<and>
                  (\<forall>\<sigma>. eval_expr \<sigma> lhs = link_load bws fv \<sigma> fs ((l # ls) ! j))"
  proof (intro allI impI)
    fix j assume j: "j < length (l # ls)"
    show "\<exists>i lhs. (c # more) ! j = Var (int i) \<and> i < length (variables cp') \<and>
                  variables cp' ! i = (0, 1) \<and> congestion_encoded cp' res ((c # more) ! j) lhs \<and>
                  (\<forall>\<sigma>. eval_expr \<sigma> lhs = link_load bws fv \<sigma> fs ((l # ls) ! j))"
    proof (cases j)
      case 0
      then show ?thesis using n_lt n_dom enc lhs_eval c_def by auto
    next
      case (Suc k)
      then have "k < length ls" using j by simp
      then show ?thesis using ih(4) Suc by simp
    qed
  qed
  show ?case
    unfolding step ih(1)
    by (rule exI[of _ "c # more"], rule exI[of _ cp']) (use ih(2) ext all in simp)
qed

subsection \<open>add_continuity_constraints\<close>

lemma add_constraint_plain: "add_constraint k cp = cp\<lparr>constraints := constraints cp @ [plain k]\<rparr>"
  by (simp add: add_constraint_def plain_def)

lemma plain_mem_add [simp]: "plain k \<in> set (constraints (add_constraint k cp))"
  by (simp add: add_constraint_plain)

lemma continuity_encoded_extends:
  "continuity_encoded cp m fv f r \<Longrightarrow> extends cp cp' \<Longrightarrow> continuity_encoded cp' m fv f r"
  by (auto simp: continuity_encoded_def dest: extends_constraint)

lemma continuity_at_routers_adds:
  "continuity_at_routers m fv f src snk rs cp = Inr cp' \<Longrightarrow>
   extends cp cp' \<and>
   (\<forall>r\<in>set rs. \<exists>rid. convert_router_id m (router_user_id r) = Some rid \<and>
        (rid \<noteq> src \<and> rid \<noteq> snk \<longrightarrow> continuity_encoded cp' m fv f rid))"
proof (induction rs arbitrary: cp)
  case Nil
  then show ?case by simp
next
  case (Cons r rs)
  from Cons.prems obtain rid where rid: "convert_router_id m (router_user_id r) = Some rid"
    by (auto split: option.splits)
  show ?case
  proof (cases "rid = src \<or> rid = snk")
    case True
    then have "continuity_at_routers m fv f src snk rs cp = Inr cp'"
      using Cons.prems rid by auto
    from Cons.IH[OF this] show ?thesis using rid True by auto
  next
    case False
    define iv where "iv = get_flow_link_vars fv [f] (get_noc_router_incoming_links m rid)"
    define ov where "ov = get_flow_link_vars fv [f] (get_noc_router_outgoing_links m rid)"
    define cp3 where "cp3 = add_constraint (Equality (expr_sum iv) (expr_sum ov))
                              (add_constraint (AtMostOne ov) (add_constraint (AtMostOne iv) cp))"
    have rest: "continuity_at_routers m fv f src snk rs cp3 = Inr cp'"
      using Cons.prems rid False by (simp add: Let_def cp3_def iv_def ov_def)
    from Cons.IH[OF rest] have ih: "extends cp3 cp'"
      "\<forall>r\<in>set rs. \<exists>rid. convert_router_id m (router_user_id r) = Some rid \<and>
        (rid \<noteq> src \<and> rid \<noteq> snk \<longrightarrow> continuity_encoded cp' m fv f rid)"
      by simp_all
    have e3: "extends cp cp3"
      by (simp add: cp3_def extends_def add_constraint_def)
    have "continuity_encoded cp3 m fv f rid"
      by (simp add: continuity_encoded_def cp3_def add_constraint_plain iv_def ov_def)
    then have "continuity_encoded cp' m fv f rid"
      using ih(1) by (rule continuity_encoded_extends)
    then show ?thesis using ih(2) rid extends_trans[OF e3 ih(1)] by auto
  qed
qed

lemma flow_continuity_encoded_extends:
  "flow_continuity_encoded ctx cp fv f \<Longrightarrow> extends cp cp' \<Longrightarrow> flow_continuity_encoded ctx cp' fv f"
  unfolding flow_continuity_encoded_def
  by (meson continuity_encoded_extends extends_constraint)

lemma add_continuity_constraints_loop_adds:
  "add_continuity_constraints_loop ctx fv fs cp = Inr cp' \<Longrightarrow>
   extends cp cp' \<and> (\<forall>f\<in>set fs. flow_continuity_encoded ctx cp' fv f)"
proof (induction fs arbitrary: cp)
  case Nil
  then show ?case by simp
next
  case (Cons f fs)
  let ?m = "noc_model (noc_ctx ctx)"
  from Cons.prems obtain src where src: "flow_source_router ctx f = Some src"
    by (auto simp: flow_source_router_def Let_def split: option.splits)
  from Cons.prems src obtain snk where snk: "flow_sink_router ctx f = Some snk"
    by (auto simp: flow_source_router_def flow_sink_router_def Let_def split: option.splits)
  define cp2 where "cp2 =
     add_constraint (ExactlyOne (get_flow_link_vars fv [f] (get_noc_router_incoming_links ?m snk)))
       (add_constraint (ExactlyOne (get_flow_link_vars fv [f] (get_noc_router_outgoing_links ?m src))) cp)"
  from Cons.prems src snk obtain cp3 where
      cp3: "continuity_at_routers ?m fv f src snk (router_storage ?m) cp2 = Inr cp3"
      and rest: "add_continuity_constraints_loop ctx fv fs cp3 = Inr cp'"
    by (auto simp: flow_source_router_def flow_sink_router_def Let_def cp2_def split: sum.splits)
  from continuity_at_routers_adds[OF cp3] have r: "extends cp2 cp3"
      "\<forall>r\<in>set (router_storage ?m). \<exists>rid. convert_router_id ?m (router_user_id r) = Some rid \<and>
        (rid \<noteq> src \<and> rid \<noteq> snk \<longrightarrow> continuity_encoded cp3 ?m fv f rid)"
    by simp_all
  from Cons.IH[OF rest] have ih: "extends cp3 cp'" "\<forall>f\<in>set fs. flow_continuity_encoded ctx cp' fv f"
    by simp_all
  have e2: "extends cp cp2" by (simp add: cp2_def extends_def add_constraint_def)
  have ex2: "plain (ExactlyOne (get_flow_link_vars fv [f] (get_noc_router_outgoing_links ?m src)))
               \<in> set (constraints cp2)"
      "plain (ExactlyOne (get_flow_link_vars fv [f] (get_noc_router_incoming_links ?m snk)))
               \<in> set (constraints cp2)"
    by (simp_all add: cp2_def add_constraint_plain)
  have "flow_continuity_encoded ctx cp3 fv f"
    unfolding flow_continuity_encoded_def
    using src snk r(2) ex2 extends_constraint[OF r(1)] by blast
  then have "flow_continuity_encoded ctx cp' fv f"
    using ih(1) by (rule flow_continuity_encoded_extends)
  moreover have "extends cp cp'"
    by (rule extends_trans[OF e2 extends_trans[OF r(1) ih(1)]])
  ultimately show ?case using ih(2) by simp
qed

subsection \<open>group_noc_links_based_on_direction\<close>

lemma group_loop_filter:
  "group_loop m ls g = Inr g' \<Longrightarrow>
   up g' = up g @ filter (is_up_link m) ls \<and> down g' = down g @ filter (is_down_link m) ls \<and>
   right g' = right g @ filter (is_right_link m) ls \<and> left g' = left g @ filter (is_left_link m) ls"
proof (induction ls arbitrary: g)
  case Nil
  then show ?case by simp
next
  case (Cons l ls)
  let ?s = "link_source_loc m l" and ?d = "link_sink_loc m l"
  from Cons.prems have valid: "source_router (get_single_noc_link m l) < length (router_storage m)"
      "sink_router (get_single_noc_link m l) < length (router_storage m)"
    and aligned: "loc_x ?s = loc_x ?d \<or> loc_y ?s = loc_y ?d"
    by (auto simp: Let_def link_source_loc_def link_sink_loc_def split: if_splits)
  consider (u) "loc_x ?s = loc_x ?d" "loc_y ?d > loc_y ?s"
    | (d) "loc_x ?s = loc_x ?d" "\<not> loc_y ?d > loc_y ?s"
    | (r) "loc_x ?s \<noteq> loc_x ?d" "loc_x ?d > loc_x ?s"
    | (l) "loc_x ?s \<noteq> loc_x ?d" "\<not> loc_x ?d > loc_x ?s"
    by blast
  then show ?case
  proof cases
    case u
    then have "group_loop m ls (g\<lparr>up := up g @ [l]\<rparr>) = Inr g'"
      using Cons.prems valid by (simp add: Let_def link_source_loc_def link_sink_loc_def)
    from Cons.IH[OF this] show ?thesis
      using u by (simp add: is_up_link_def is_down_link_def is_right_link_def is_left_link_def)
  next
    case d
    then have "group_loop m ls (g\<lparr>down := down g @ [l]\<rparr>) = Inr g'"
      using Cons.prems valid by (simp add: Let_def link_source_loc_def link_sink_loc_def)
    from Cons.IH[OF this] show ?thesis
      using d by (simp add: is_up_link_def is_down_link_def is_right_link_def is_left_link_def)
  next
    case r
    then have "group_loop m ls (g\<lparr>right := right g @ [l]\<rparr>) = Inr g'"
      using Cons.prems valid aligned by (simp add: Let_def link_source_loc_def link_sink_loc_def)
    from Cons.IH[OF this] show ?thesis
      using r aligned by (simp add: is_up_link_def is_down_link_def is_right_link_def is_left_link_def)
  next
    case l
    then have "group_loop m ls (g\<lparr>left := left g @ [l]\<rparr>) = Inr g'"
      using Cons.prems valid aligned by (simp add: Let_def link_source_loc_def link_sink_loc_def)
    from Cons.IH[OF this] show ?thesis
      using l aligned by (simp add: is_up_link_def is_down_link_def is_right_link_def is_left_link_def)
  qed
qed

lemma group_loop_valid:
  "group_loop m ls g = Inr g' \<Longrightarrow>
   \<forall>l\<in>set ls. source_router (get_single_noc_link m l) < length (router_storage m) \<and>
               sink_router (get_single_noc_link m l) < length (router_storage m)"
proof (induction ls arbitrary: g)
  case Nil
  then show ?case by simp
next
  case (Cons l ls)
  from Cons.prems have valid: "source_router (get_single_noc_link m l) < length (router_storage m)"
      "sink_router (get_single_noc_link m l) < length (router_storage m)"
    by (auto simp: Let_def split: if_splits)
  from Cons.prems obtain g1 where "group_loop m ls g1 = Inr g'"
    by (auto simp: Let_def split: if_splits)
  from Cons.IH[OF this] valid show ?case by simp
qed

subsection \<open>add_distance_constraints\<close>

lemma distance_encoded_extends:
  "distance_encoded ctx cp fv g f \<Longrightarrow> extends cp cp' \<Longrightarrow> distance_encoded ctx cp' fv g f"
  unfolding distance_encoded_def by (meson extends_constraint)

lemma add_distance_constraints_loop_adds:
  "add_distance_constraints_loop ctx fv g fs cp = Inr cp' \<Longrightarrow>
   extends cp cp' \<and> (\<forall>f\<in>set fs. distance_encoded ctx cp' fv g f)"
proof (induction fs arbitrary: cp)
  case Nil
  then show ?case by simp
next
  case (Cons f fs)
  from Cons.prems obtain src where src: "flow_source_router ctx f = Some src"
    by (auto simp: flow_source_router_def Let_def split: option.splits)
  from Cons.prems src obtain dst where dst: "flow_sink_router ctx f = Some dst"
    by (auto simp: flow_source_router_def flow_sink_router_def Let_def split: option.splits)
  define h where "h = Equality
                 (expr_add expr_zero
                    (expr_sub (expr_sum (get_flow_link_vars fv [f] (right g)))
                              (expr_sum (get_flow_link_vars fv [f] (left g)))))
                 (expr_const (flow_delta_x ctx src dst))"
  define v where "v = Equality
                 (expr_add expr_zero
                    (expr_sub (expr_sum (get_flow_link_vars fv [f] (up g)))
                              (expr_sum (get_flow_link_vars fv [f] (down g)))))
                 (expr_const (flow_delta_y ctx src dst))"
  define cp2 where "cp2 = add_constraint v (add_constraint h cp)"
  have rest: "add_distance_constraints_loop ctx fv g fs cp2 = Inr cp'"
    using Cons.prems src dst
    by (simp add: flow_source_router_def flow_sink_router_def Let_def cp2_def h_def v_def
        flow_delta_x_def flow_delta_y_def)
  from Cons.IH[OF rest] have ih: "extends cp2 cp'" "\<forall>f\<in>set fs. distance_encoded ctx cp' fv g f"
    by simp_all
  have e2: "extends cp cp2" by (simp add: cp2_def extends_def add_constraint_def)
  have "distance_encoded ctx cp2 fv g f"
    unfolding distance_encoded_def
    using src dst by (simp add: cp2_def add_constraint_plain h_def v_def)
  then have "distance_encoded ctx cp' fv g f" using ih(1) by (rule distance_encoded_extends)
  then show ?case using ih(2) extends_trans[OF e2 ih(1)] by simp
qed

subsection \<open>Stages of build_sat_model\<close>

lemma build_sat_model_stages:
  assumes "build_sat_model ctx visit res = Inr sat"
  shows "\<exists>cp1 fv1 lov cp2 fv2 cp3 cong fv3 cp4 cp5 g cp6 fv4 cp7 bws obj.
           create_flow_link_vars ctx empty_cp_model Map.empty [] = (cp1, fv1, lov) \<and>
           constrain_latency_overrun_vars ctx cp1 fv1 lov = Inr cp2 \<and>
           forbid_illegal_turns ctx fv1 cp2 = Inr (fv2, cp3) \<and>
           create_congested_link_vars ctx [] fv2 cp3 res = Inr (cong, fv3, cp4) \<and>
           add_continuity_constraints ctx fv3 cp4 = Inr cp5 \<and>
           group_noc_links_based_on_direction ctx \<lparr>up = [], down = [], right = [], left = []\<rparr> = Inr g \<and>
           add_distance_constraints ctx fv3 cp5 g = Inr cp6 \<and>
           add_hints_loop (noc_traffic_flows_storage (noc_ctx ctx))
             (get_all_traffic_flow_id (noc_traffic_flows_storage (noc_ctx ctx))) (fv3, cp6) = (fv4, cp7) \<and>
           rescale_traffic_flow_bandwidths ctx res = Inr bws \<and>
           sat = \<lparr>sat_cp_model = Minimize obj cp7, sat_flow_link_vars = fv4,
                  sat_latency_overrun_vars = lov, sat_link_congested_vars = cong, sat_groups = g\<rparr>"
  using assms unfolding build_sat_model_def
  by (simp add: Let_def split: prod.splits sum.splits) blast

lemma get_flow_link_vars_map_le:
  assumes "fv \<subseteq>\<^sub>m fv'" "\<forall>l\<in>set ls. fv (f, l) \<noteq> None"
  shows "get_flow_link_vars fv [f] ls = get_flow_link_vars fv' [f] ls"
proof -
  have "(case fv (f, l) of None \<Rightarrow> [] | Some v \<Rightarrow> [v]) = (case fv' (f, l) of None \<Rightarrow> [] | Some v \<Rightarrow> [v])"
    if l: "l \<in> set ls" for l
  proof -
    obtain b where "fv (f, l) = Some b" using assms(2) l by auto
    then show ?thesis using map_le_same[OF assms(1)] by simp
  qed
  then show ?thesis by (simp add: get_flow_link_vars_def cong: map_cong)
qed

lemma flow_link_value_map_le:
  "fv \<subseteq>\<^sub>m fv' \<Longrightarrow> fv (f, l) \<noteq> None \<Longrightarrow> flow_link_value fv \<sigma> f l = flow_link_value fv' \<sigma> f l"
  by (auto simp: flow_link_value_def dest: map_le_same)

lemma link_load_map_le:
  assumes "fv \<subseteq>\<^sub>m fv'" "\<forall>f\<in>set fs. fv (f, l) \<noteq> None"
  shows "link_load bws fv \<sigma> fs l = link_load bws fv' \<sigma> fs l"
  unfolding link_load_def
  using assms by (intro arg_cong[where f = sum_list] map_cong refl) (simp add: flow_link_value_map_le)

lemma valid_links_outgoing [simp]:
  "valid_links ctx (get_noc_router_outgoing_links (noc_model (noc_ctx ctx)) r)"
  by (simp add: valid_links_def get_noc_router_outgoing_links_def get_noc_link_keys_def n_links_def)

lemma valid_links_incoming [simp]:
  "valid_links ctx (get_noc_router_incoming_links (noc_model (noc_ctx ctx)) r)"
  by (simp add: valid_links_def get_noc_router_incoming_links_def get_noc_link_keys_def n_links_def)

lemma valid_links_keys [simp]: "valid_links ctx (get_noc_link_keys (noc_model (noc_ctx ctx)))"
  by (simp add: valid_links_def get_noc_link_keys_def n_links_def)

lemma valid_links_filter [simp]:
  "valid_links ctx (filter P (get_noc_link_keys (noc_model (noc_ctx ctx))))"
  by (simp add: valid_links_def get_noc_link_keys_def n_links_def)

lemma get_flow_link_vars_final:
  assumes "fv_ok cp fv F (n_links ctx)" "fv \<subseteq>\<^sub>m fv'" "f \<in> F" "valid_links ctx ls"
  shows "get_flow_link_vars fv [f] ls = get_flow_link_vars fv' [f] ls"
proof (rule get_flow_link_vars_map_le[OF assms(2)])
  show "\<forall>l\<in>set ls. fv (f, l) \<noteq> None"
    using fv_ok_defined[OF assms(1,3)] assms(4) unfolding valid_links_def by fastforce
qed

lemma build_sat_model_built:
  assumes "build_sat_model ctx visit res = Inr sat"
  shows "built ctx res sat"
proof -
  let ?m = "noc_model (noc_ctx ctx)"
  let ?fs = "get_all_traffic_flow_id (noc_traffic_flows_storage (noc_ctx ctx))"
  let ?F = "{..<n_flows ctx}"
  from build_sat_model_stages[OF assms]
  obtain cp1 fv1 lov cp2 fv2 cp3 cong fv3 cp4 cp5 g cp6 fv4 cp7 bws obj where
      s1: "create_flow_link_vars ctx empty_cp_model Map.empty [] = (cp1, fv1, lov)" and
      s2: "constrain_latency_overrun_vars ctx cp1 fv1 lov = Inr cp2" and
      s3: "forbid_illegal_turns ctx fv1 cp2 = Inr (fv2, cp3)" and
      s4: "create_congested_link_vars ctx [] fv2 cp3 res = Inr (cong, fv3, cp4)" and
      s5: "add_continuity_constraints ctx fv3 cp4 = Inr cp5" and
      s6: "group_noc_links_based_on_direction ctx \<lparr>up = [], down = [], right = [], left = []\<rparr> = Inr g" and
      s7: "add_distance_constraints ctx fv3 cp5 g = Inr cp6" and
      s8: "add_hints_loop (noc_traffic_flows_storage (noc_ctx ctx)) ?fs (fv3, cp6) = (fv4, cp7)" and
      s9: "rescale_traffic_flow_bandwidths ctx res = Inr bws" and
      sat: "sat = \<lparr>sat_cp_model = Minimize obj cp7, sat_flow_link_vars = fv4,
                  sat_latency_overrun_vars = lov, sat_link_congested_vars = cong, sat_groups = g\<rparr>"
    by blast
  define cp where "cp = Minimize obj cp7"
  have fs: "?fs = [0..<n_flows ctx]" "set ?fs = ?F"
    by (auto simp: get_all_traffic_flow_id_def n_flows_def)
  have keys: "get_noc_link_keys ?m = [0..<n_links ctx]"
    by (simp add: get_noc_link_keys_def n_links_def)
  \<comment> \<open>stage 1\<close>
  note c1 = create_flow_link_vars_empty[OF s1]
  \<comment> \<open>stage 2\<close>
  from s2 have l2: "constrain_latency_overrun_vars_loop ctx fv1 lov cp1 = Inr cp2"
    by (simp add: constrain_latency_overrun_vars_def)
  note c2 = constrain_latency_overrun_vars_loop_adds[OF l2]
  \<comment> \<open>stage 3\<close>
  note c3 = forbid_illegal_turns_grows[OF s3]
  have ok2: "fv_ok cp2 fv1 ?F (n_links ctx)" using c1(1) c2 by (auto intro: fv_ok_extends)
  have ok3: "fv_ok cp3 fv2 ?F (n_links ctx)"
    using ok2 c3 by (auto intro: fv_ok_extends fv_ok_map_le)
  \<comment> \<open>stage 4\<close>
  have def3: "\<forall>f\<in>set ?fs. \<forall>l\<in>set (get_noc_link_keys ?m). fv2 (f, l) \<noteq> None"
    using fv_ok_defined[OF ok3] by (fastforce simp: fs keys)
  from s4 s9 have l4: "create_congested_link_vars_loop bws res ?fs (get_noc_link_keys ?m) ([], fv2, cp3)
                        = (cong, fv3, cp4)"
    by (simp add: create_congested_link_vars_def)
  from create_congested_link_vars_loop_adds[OF def3, of bws res "[]" cp3] l4
  have c4: "fv3 = fv2" "length cong = n_links ctx" "extends cp3 cp4"
      "\<forall>j<n_links ctx. \<exists>i lhs. cong ! j = Var (int i) \<and> i < length (variables cp4) \<and>
                  variables cp4 ! i = (0, 1) \<and> congestion_encoded cp4 res (cong ! j) lhs \<and>
                  (\<forall>\<sigma>. eval_expr \<sigma> lhs = link_load bws fv2 \<sigma> ?fs ([0..<n_links ctx] ! j))"
    by (auto simp: keys)
  have ok4: "fv_ok cp4 fv3 ?F (n_links ctx)" using ok3 c4(1,3) by (auto intro: fv_ok_extends)
  \<comment> \<open>stage 5\<close>
  from s5 have l5: "add_continuity_constraints_loop ctx fv3 ?fs cp4 = Inr cp5"
    by (simp add: add_continuity_constraints_def)
  note c5 = add_continuity_constraints_loop_adds[OF l5]
  \<comment> \<open>stage 6\<close>
  from s6 have l6: "group_loop ?m (get_noc_link_keys ?m) \<lparr>up = [], down = [], right = [], left = []\<rparr> = Inr g"
    by (simp add: group_noc_links_based_on_direction_def)
  note c6 = group_loop_filter[OF l6]
  \<comment> \<open>stage 7\<close>
  from s7 have l7: "add_distance_constraints_loop ctx fv3 g ?fs cp5 = Inr cp6"
    by (simp add: add_distance_constraints_def split: if_splits)
  note c7 = add_distance_constraints_loop_adds[OF l7]
  \<comment> \<open>stage 8\<close>
  from add_hints_loop_grows[of "(fv3, cp6)" "noc_traffic_flows_storage (noc_ctx ctx)" ?fs] s8
  have c8: "fv3 \<subseteq>\<^sub>m fv4" "variables cp7 = variables cp6" "constraints cp7 = constraints cp6"
    by simp_all
  have e67: "extends cp6 cp" by (simp add: extends_def cp_def Minimize_def c8)
  have e5: "extends cp5 cp" using c7 e67 by (blast intro: extends_trans)
  have e4: "extends cp4 cp" using c5 e5 by (blast intro: extends_trans)
  have e3: "extends cp3 cp" using c4(3) e4 by (blast intro: extends_trans)
  have e2: "extends cp2 cp" using c3 e3 by (blast intro: extends_trans)
  have e1: "extends cp1 cp" using c2 e2 by (blast intro: extends_trans)
  have m3: "fv3 \<subseteq>\<^sub>m fv4" by (rule c8(1))
  have m2: "fv2 \<subseteq>\<^sub>m fv4" using c4(1) m3 by simp
  have m1: "fv1 \<subseteq>\<^sub>m fv4" using c3 m2 by (blast intro: map_le_trans)
  \<comment> \<open>the facts\<close>
  have F1: "fv_ok cp fv4 ?F (n_links ctx)"
    using c1(1) e1 m1 by (blast intro: fv_ok_extends fv_ok_map_le)
  have F2: "lov_ok ctx cp lov ?F"
  proof -
    obtain vs where vs: "variables cp = variables cp1 @ vs" using e1 unfolding extends_def by blast
    have "\<exists>i. snd e = int i \<and> i < length (variables cp1 @ vs) \<and> (variables cp1 @ vs) ! i = (0, 20)"
      if "\<exists>i. snd e = int i \<and> i < length (variables cp1) \<and> variables cp1 ! i = (0, 20)"
      for e :: "nat \<times> int"
      using that by (auto simp: nth_append)
    then show ?thesis using c1(2) unfolding lov_ok_def vs by blast
  qed
  have F3: "\<forall>e\<in>set lov. \<exists>n. comp_max_number_of_traversed_links ctx (fst e) = Inr n \<and>
             overrun_constraint ctx fv4 (fst e) (snd e) n \<in> set (constraints cp)"
  proof
    fix e assume e: "e \<in> set lov"
    then obtain n where n: "comp_max_number_of_traversed_links ctx (fst e) = Inr n"
        "overrun_constraint ctx fv1 (fst e) (snd e) n \<in> set (constraints cp2)"
      using c2 by blast
    have "fst e \<in> ?F" using c1(2) e unfolding lov_ok_def by blast
    then have "get_flow_link_vars fv1 [fst e] (get_noc_link_keys ?m) =
               get_flow_link_vars fv4 [fst e] (get_noc_link_keys ?m)"
      by (intro get_flow_link_vars_final[OF c1(1) m1]) simp_all
    then have "overrun_constraint ctx fv1 (fst e) (snd e) n = overrun_constraint ctx fv4 (fst e) (snd e) n"
      by (simp add: overrun_constraint_def)
    then show "\<exists>n. comp_max_number_of_traversed_links ctx (fst e) = Inr n \<and>
             overrun_constraint ctx fv4 (fst e) (snd e) n \<in> set (constraints cp)"
      using n extends_constraint[OF e2] by metis
  qed
  have F4: "\<forall>l<n_links ctx. \<exists>i lhs. cong ! l = Var (int i) \<and>
              i < length (variables cp) \<and> variables cp ! i = (0, 1) \<and>
              congestion_encoded cp res (cong ! l) lhs \<and>
              (\<forall>\<sigma>. eval_expr \<sigma> lhs = link_load bws fv4 \<sigma> [0..<n_flows ctx] l)"
  proof (intro allI impI)
    fix l assume l: "l < n_links ctx"
    then obtain i lhs where il: "cong ! l = Var (int i)" "i < length (variables cp4)"
        "variables cp4 ! i = (0, 1)" "congestion_encoded cp4 res (cong ! l) lhs"
        "\<forall>\<sigma>. eval_expr \<sigma> lhs = link_load bws fv2 \<sigma> ?fs ([0..<n_links ctx] ! l)"
      using c4(4) by blast
    obtain vs where vs: "variables cp = variables cp4 @ vs" using e4 unfolding extends_def by blast
    have "\<forall>f\<in>set [0..<n_flows ctx]. fv2 (f, l) \<noteq> None"
      using fv_ok_defined[OF ok3 _ l] by fastforce
    then have "link_load bws fv2 \<sigma> [0..<n_flows ctx] l = link_load bws fv4 \<sigma> [0..<n_flows ctx] l" for \<sigma>
      by (rule link_load_map_le[OF m2])
    then have "\<forall>\<sigma>. eval_expr \<sigma> lhs = link_load bws fv4 \<sigma> [0..<n_flows ctx] l"
      using il(5) l by (simp add: fs)
    moreover have "i < length (variables cp)" "variables cp ! i = (0, 1)"
      using il(2,3) vs by (simp_all add: nth_append)
    moreover have "congestion_encoded cp res (cong ! l) lhs"
      by (rule congestion_encoded_extends[OF il(4) e4])
    ultimately show "\<exists>i lhs. cong ! l = Var (int i) \<and>
              i < length (variables cp) \<and> variables cp ! i = (0, 1) \<and>
              congestion_encoded cp res (cong ! l) lhs \<and>
              (\<forall>\<sigma>. eval_expr \<sigma> lhs = link_load bws fv4 \<sigma> [0..<n_flows ctx] l)"
      using il(1) by blast
  qed
  have same: "get_flow_link_vars fv3 [f] ls = get_flow_link_vars fv4 [f] ls"
    if "f < n_flows ctx" "valid_links ctx ls" for f ls
    using that by (intro get_flow_link_vars_final[OF ok4 m3]) simp_all
  have F5: "\<forall>f<n_flows ctx. flow_continuity_encoded ctx cp fv4 f"
  proof (intro allI impI)
    fix f assume f: "f < n_flows ctx"
    then have "flow_continuity_encoded ctx cp5 fv3 f" using c5 by (simp add: fs)
    then have "flow_continuity_encoded ctx cp fv3 f" using e5 by (rule flow_continuity_encoded_extends)
    then show "flow_continuity_encoded ctx cp fv4 f"
      unfolding flow_continuity_encoded_def continuity_encoded_def
      by (simp add: same[OF f])
  qed
  have G: "up g = filter (is_up_link ?m) (get_noc_link_keys ?m)"
      "down g = filter (is_down_link ?m) (get_noc_link_keys ?m)"
      "right g = filter (is_right_link ?m) (get_noc_link_keys ?m)"
      "left g = filter (is_left_link ?m) (get_noc_link_keys ?m)"
    using c6 by simp_all
  have F7: "\<forall>f<n_flows ctx. distance_encoded ctx cp fv4 g f"
  proof (intro allI impI)
    fix f assume f: "f < n_flows ctx"
    then have "distance_encoded ctx cp6 fv3 g f" using c7 by (simp add: fs)
    then have "distance_encoded ctx cp fv3 g f" using e67 by (rule distance_encoded_extends)
    then show "distance_encoded ctx cp fv4 g f"
      unfolding distance_encoded_def by (simp add: same[OF f] G)
  qed
  have V: "\<forall>l<n_links ctx. source_router (get_single_noc_link ?m l) < length (router_storage ?m) \<and>
                          sink_router (get_single_noc_link ?m l) < length (router_storage ?m)"
    using group_loop_valid[OF l6] by (simp add: keys)
  show ?thesis
    unfolding built_def Let_def sat
    using F1 F2 F3 F4 F5 F7 G s9 c4(2) V by (simp add: cp_def)
qed

subsection \<open>Counting activated links\<close>

lemma get_flow_link_vars_Cons:
  "get_flow_link_vars fv [f] (l # ls) =
     (case fv (f, l) of Some v \<Rightarrow> [v] | None \<Rightarrow> []) @ get_flow_link_vars fv [f] ls"
  by (simp add: get_flow_link_vars_def)

lemma get_flow_link_vars_Nil [simp]: "get_flow_link_vars fv [f] [] = []"
  by (simp add: get_flow_link_vars_def)

lemma count_true_flow_vars:
  "count_true \<sigma> (get_flow_link_vars fv [f] ls) = activated_count fv \<sigma> f ls"
  by (induction ls)
     (auto simp: get_flow_link_vars_Cons count_true_def activated_count_def uses_link_def
           split: option.splits)

lemma flow_vars_bool:
  assumes "fv_ok cp fv F (n_links ctx)" "feasible \<sigma> cp" "f \<in> F" "valid_links ctx ls"
  shows "\<forall>b\<in>set (get_flow_link_vars fv [f] ls). is_bool \<sigma> b"
proof
  fix b assume "b \<in> set (get_flow_link_vars fv [f] ls)"
  then obtain l where l: "l \<in> set ls" "fv (f, l) = Some b"
    by (auto simp: get_flow_link_vars_def split: option.splits)
  then have "l < n_links ctx" using assms(4) by (simp add: valid_links_def)
  from fv_ok_is_bool[OF assms(1,2,3) this] l(2) show "is_bool \<sigma> b" by simp
qed

lemma eval_sum_flow_vars:
  assumes "fv_ok cp fv F (n_links ctx)" "feasible \<sigma> cp" "f \<in> F" "valid_links ctx ls"
  shows "eval_expr \<sigma> (expr_sum (get_flow_link_vars fv [f] ls)) = int (activated_count fv \<sigma> f ls)"
  using sum_bool_int_count[OF flow_vars_bool[OF assms]] by (simp add: count_true_flow_vars)

lemma built_fv_ok:
  "built ctx res sat \<Longrightarrow> fv_ok (sat_cp_model sat) (sat_flow_link_vars sat) {..<n_flows ctx} (n_links ctx)"
  by (simp add: built_def Let_def)

subsection \<open>Latency overrun (C5, C4)\<close>

text \<open>
  Claim C5.  When \<^verbatim>\<open>create_flow_link_vars\<close> has run on the empty model, a traffic flow
  \<open>f\<close> of the registry has an entry in \<open>latency_overrun_vars\<close> if and only if its declared
  maximum latency is strictly below \<open>0.1\<close>; every entry is a variable of the model with
  domain \<open>[0, 20]\<close>, the entries have distinct flows as keys, and
  \<^verbatim>\<open>comp_max_number_of_traversed_links\<close> fails its assertion exactly when the latency is
  not strictly below \<open>0.1\<close>.
\<close>

theorem latency_overrun_var_iff_constrained:
  assumes "create_flow_link_vars ctx empty_cp_model Map.empty [] = (cp1, fv1, lov)"
    and "f < n_flows ctx"
  shows "((f \<in> fst ` set lov) = (flow_latency ctx f < 1 / 10)) \<and>
         (\<forall>e\<in>set lov. \<exists>i. snd e = int i \<and> i < length (variables cp1) \<and> variables cp1 ! i = (0, 20)) \<and>
         distinct (map fst lov) \<and>
         ((comp_max_number_of_traversed_links ctx f = Inl LatencyNotConstrained)
            = (\<not> flow_latency ctx f < 1 / 10))"
proof -
  note ok = create_flow_link_vars_empty(2)[OF assms(1)]
  have a: "(f \<in> fst ` set lov) = (flow_latency ctx f < 1 / 10)"
    using ok assms(2) unfolding lov_ok_def by (metis lessThan_iff imageE)
  have b: "\<forall>e\<in>set lov. \<exists>i. snd e = int i \<and> i < length (variables cp1) \<and> variables cp1 ! i = (0, 20)"
    using ok unfolding lov_ok_def by blast
  have c: "distinct (map fst lov)"
    using ok unfolding lov_ok_def by (simp add: strict_sorted_iff)
  have d: "(comp_max_number_of_traversed_links ctx f = Inl LatencyNotConstrained)
            = (\<not> flow_latency ctx f < 1 / 10)"
    by (auto simp: comp_max_number_of_traversed_links_def Let_def flow_latency_def
             dest: floor_to_int_error)
  show ?thesis using a b c d by blast
qed

text \<open>
  Claim C4.  In the model built by \<^verbatim>\<open>noc_sat_route\<close>, for every latency-constrained flow
  \<open>f\<close> with overrun variable \<open>v\<close>: the maximum number of links \<open>n\<close> returned by
  \<^verbatim>\<open>comp_max_number_of_traversed_links\<close> is the floor of (latency bound - router latency)
  / (link latency + router latency), the difference, the sum and the quotient being those
  of binary64 arithmetic and the quotient \<open>q\<close> finite; the model holds the max-equality constraint of \<open>v\<close>
  with the two expressions (activated links - \<open>n\<close>) and \<open>0\<close>; and in every feasible
  assignment \<open>v\<close> equals the maximum of \<open>0\<close> and the number of activated links of \<open>f\<close>
  minus \<open>n\<close>: it is \<open>0\<close> at exactly \<open>n\<close> links and \<open>k\<close> at \<open>n + k\<close> links.
\<close>

theorem latency_overrun_is_relu:
  assumes "build_sat_model ctx visit res = Inr sat"
    and "feasible \<sigma> (sat_cp_model sat)"
    and "(f, v) \<in> set (sat_latency_overrun_vars sat)"
  shows "\<exists>n q. comp_max_number_of_traversed_links ctx f = Inr n \<and>
           double_div
             (double_sub (flow_latency ctx f) (storage_router_latency (noc_model (noc_ctx ctx))))
             (double_add (storage_link_latency (noc_model (noc_ctx ctx)))
                         (storage_router_latency (noc_model (noc_ctx ctx)))) = Finite q \<and>
           n = \<lfloor>q\<rfloor> \<and>
           overrun_constraint ctx (sat_flow_link_vars sat) f v n \<in> set (constraints (sat_cp_model sat)) \<and>
           \<sigma> v = max 0 (int (activated_count (sat_flow_link_vars sat) \<sigma> f
                                 (get_noc_link_keys (noc_model (noc_ctx ctx)))) - n) \<and>
           (int (activated_count (sat_flow_link_vars sat) \<sigma> f
                   (get_noc_link_keys (noc_model (noc_ctx ctx)))) = n \<longrightarrow> \<sigma> v = 0) \<and>
           (\<forall>k\<ge>0. int (activated_count (sat_flow_link_vars sat) \<sigma> f
                          (get_noc_link_keys (noc_model (noc_ctx ctx)))) = n + k \<longrightarrow> \<sigma> v = k)"
proof -
  let ?cp = "sat_cp_model sat" and ?fv = "sat_flow_link_vars sat"
  let ?keys = "get_noc_link_keys (noc_model (noc_ctx ctx))"
  have b: "built ctx res sat" by (rule build_sat_model_built[OF assms(1)])
  then obtain n where n: "comp_max_number_of_traversed_links ctx f = Inr n"
      "overrun_constraint ctx ?fv f v n \<in> set (constraints ?cp)"
    using assms(3) unfolding built_def Let_def by fastforce
  have fF: "f \<in> {..<n_flows ctx}"
    using b assms(3) unfolding built_def Let_def lov_ok_def by fastforce
  have "floor_to_int
          (double_div
             (double_sub (flow_latency ctx f) (storage_router_latency (noc_model (noc_ctx ctx))))
             (double_add (storage_link_latency (noc_model (noc_ctx ctx)))
                         (storage_router_latency (noc_model (noc_ctx ctx))))) = Inr n"
    using n(1)
    by (simp add: comp_max_number_of_traversed_links_def Let_def flow_latency_def
             split: if_splits)
  from floor_to_int_result[OF this] obtain q where floor:
      "double_div
         (double_sub (flow_latency ctx f) (storage_router_latency (noc_model (noc_ctx ctx))))
         (double_add (storage_link_latency (noc_model (noc_ctx ctx)))
                     (storage_router_latency (noc_model (noc_ctx ctx)))) = Finite q"
      "n = \<lfloor>q\<rfloor>"
    by blast
  have "holds \<sigma> (kind (overrun_constraint ctx ?fv f v n))"
    using feasible_constraint[OF assms(2) n(2)] by (simp add: satisfied_def overrun_constraint_def)
  moreover have "eval_expr \<sigma> (expr_sum (get_flow_link_vars ?fv [f] ?keys))
                   = int (activated_count ?fv \<sigma> f ?keys)"
    by (rule eval_sum_flow_vars[OF built_fv_ok[OF b] assms(2) fF]) simp
  ultimately have val: "\<sigma> v = max 0 (int (activated_count ?fv \<sigma> f ?keys) - n)"
    by (simp add: overrun_constraint_def max.commute)
  show ?thesis using n floor val by auto
qed

subsection \<open>Congestion (C2)\<close>

text \<open>
  Claim C2.  In the model built by \<^verbatim>\<open>noc_sat_route\<close>, for every NoC link \<open>l\<close>: the
  congestion variable of \<open>l\<close> is a boolean variable \<open>c\<close> of the model, and there is a
  linear expression \<open>lhs\<close> whose value is the sum over all traffic flows of the rescaled
  bandwidth of the flow times its flow-link variable for \<open>l\<close>, such that the model holds
  the two reified constraints "\<open>lhs \<le> resolution\<close>, enforced if not \<open>c\<close>" and
  "\<open>lhs > resolution\<close>, enforced if \<open>c\<close>"; consequently, in every feasible assignment
  \<open>c\<close> is true if and only if that sum strictly exceeds the resolution.
\<close>

theorem congested_iff_overloaded:
  assumes "build_sat_model ctx visit res = Inr sat"
    and "feasible \<sigma> (sat_cp_model sat)"
    and "l < n_links ctx"
  shows "\<exists>bws lhs. rescale_traffic_flow_bandwidths ctx res = Inr bws \<and>
           (\<forall>\<tau>. eval_expr \<tau> lhs = link_load bws (sat_flow_link_vars sat) \<tau> [0..<n_flows ctx] l) \<and>
           \<lparr>kind = LessOrEqual lhs (expr_const res),
             only_enforce_if = [bool_not (sat_link_congested_vars sat ! l)]\<rparr>
             \<in> set (constraints (sat_cp_model sat)) \<and>
           \<lparr>kind = GreaterThan lhs (expr_const res),
             only_enforce_if = [sat_link_congested_vars sat ! l]\<rparr>
             \<in> set (constraints (sat_cp_model sat)) \<and>
           (bool_value \<sigma> (sat_link_congested_vars sat ! l)
              = (res < link_load bws (sat_flow_link_vars sat) \<sigma> [0..<n_flows ctx] l))"
proof -
  let ?cp = "sat_cp_model sat" and ?c = "sat_link_congested_vars sat ! l"
  have b: "built ctx res sat" by (rule build_sat_model_built[OF assms(1)])
  then obtain bws i lhs where r: "rescale_traffic_flow_bandwidths ctx res = Inr bws"
      "?c = Var (int i)" "i < length (variables ?cp)" "variables ?cp ! i = (0, 1)"
      "congestion_encoded ?cp res ?c lhs"
      "\<forall>\<tau>. eval_expr \<tau> lhs = link_load bws (sat_flow_link_vars sat) \<tau> [0..<n_flows ctx] l"
    using assms(3) unfolding built_def Let_def by blast
  have dom: "0 \<le> \<sigma> (int i) \<and> \<sigma> (int i) \<le> 1"
    using feasible_domain[OF assms(2) r(3)] r(4) by simp
  have le: "satisfied \<sigma> \<lparr>kind = LessOrEqual lhs (expr_const res), only_enforce_if = [bool_not ?c]\<rparr>"
    and gt: "satisfied \<sigma> \<lparr>kind = GreaterThan lhs (expr_const res), only_enforce_if = [?c]\<rparr>"
    using r(5) feasible_constraint[OF assms(2)] unfolding congestion_encoded_def by blast+
  have iff: "bool_value \<sigma> ?c = (res < link_load bws (sat_flow_link_vars sat) \<sigma> [0..<n_flows ctx] l)"
    using le gt dom r(6) by (auto simp: satisfied_def r(2) bool_value_def)
  show ?thesis using r(1,5,6) iff unfolding congestion_encoded_def by blast
qed

subsection \<open>Distance (C3)\<close>

text \<open>
  Claim C3.  In the model built by \<^verbatim>\<open>noc_sat_route\<close>, for every traffic flow \<open>f\<close> and every
  feasible assignment: the number of activated links of \<open>f\<close> in the right bucket minus
  the number in the left bucket equals the x coordinate of the destination router minus
  that of the source router, and likewise up minus down for y, the coordinates being
  those of the compressed grid; the four buckets hold exactly the links whose endpoint
  coordinates satisfy: same x and larger destination y (up), same x and not larger
  destination y (down), same y and larger destination x (right), same y and smaller
  destination x (left).
\<close>

theorem distance_constraints_fix_displacement:
  assumes "build_sat_model ctx visit res = Inr sat"
    and "feasible \<sigma> (sat_cp_model sat)"
    and "f < n_flows ctx"
  shows "\<exists>src dst. flow_source_router ctx f = Some src \<and> flow_sink_router ctx f = Some dst \<and>
           int (activated_count (sat_flow_link_vars sat) \<sigma> f (right (sat_groups sat)))
             - int (activated_count (sat_flow_link_vars sat) \<sigma> f (left (sat_groups sat)))
             = flow_delta_x ctx src dst \<and>
           int (activated_count (sat_flow_link_vars sat) \<sigma> f (up (sat_groups sat)))
             - int (activated_count (sat_flow_link_vars sat) \<sigma> f (down (sat_groups sat)))
             = flow_delta_y ctx src dst \<and>
           up (sat_groups sat) = filter (is_up_link (noc_model (noc_ctx ctx)))
                                   (get_noc_link_keys (noc_model (noc_ctx ctx))) \<and>
           down (sat_groups sat) = filter (is_down_link (noc_model (noc_ctx ctx)))
                                   (get_noc_link_keys (noc_model (noc_ctx ctx))) \<and>
           right (sat_groups sat) = filter (is_right_link (noc_model (noc_ctx ctx)))
                                   (get_noc_link_keys (noc_model (noc_ctx ctx))) \<and>
           left (sat_groups sat) = filter (is_left_link (noc_model (noc_ctx ctx)))
                                   (get_noc_link_keys (noc_model (noc_ctx ctx)))"
proof -
  let ?cp = "sat_cp_model sat" and ?fv = "sat_flow_link_vars sat" and ?g = "sat_groups sat"
  let ?m = "noc_model (noc_ctx ctx)"
  have b: "built ctx res sat" by (rule build_sat_model_built[OF assms(1)])
  have G: "up ?g = filter (is_up_link ?m) (get_noc_link_keys ?m)"
      "down ?g = filter (is_down_link ?m) (get_noc_link_keys ?m)"
      "right ?g = filter (is_right_link ?m) (get_noc_link_keys ?m)"
      "left ?g = filter (is_left_link ?m) (get_noc_link_keys ?m)"
    using b unfolding built_def Let_def by simp_all
  have fF: "f \<in> {..<n_flows ctx}" using assms(3) by simp
  have cnt: "eval_expr \<sigma> (expr_sum (get_flow_link_vars ?fv [f] ls)) = int (activated_count ?fv \<sigma> f ls)"
    if "valid_links ctx ls" for ls
    by (rule eval_sum_flow_vars[OF built_fv_ok[OF b] assms(2) fF that])
  have v: "valid_links ctx (up ?g)" "valid_links ctx (down ?g)"
      "valid_links ctx (right ?g)" "valid_links ctx (left ?g)"
    by (simp_all add: G)
  from b assms(3) have "distance_encoded ctx ?cp ?fv ?g f" unfolding built_def Let_def by blast
  then obtain src dst where sd: "flow_source_router ctx f = Some src" "flow_sink_router ctx f = Some dst"
    and h: "plain (Equality
                 (expr_add expr_zero
                    (expr_sub (expr_sum (get_flow_link_vars ?fv [f] (right ?g)))
                              (expr_sum (get_flow_link_vars ?fv [f] (left ?g)))))
                 (expr_const (flow_delta_x ctx src dst))) \<in> set (constraints ?cp)"
    and vv: "plain (Equality
                 (expr_add expr_zero
                    (expr_sub (expr_sum (get_flow_link_vars ?fv [f] (up ?g)))
                              (expr_sum (get_flow_link_vars ?fv [f] (down ?g)))))
                 (expr_const (flow_delta_y ctx src dst))) \<in> set (constraints ?cp)"
    unfolding distance_encoded_def by blast
  have hx: "int (activated_count ?fv \<sigma> f (right ?g)) - int (activated_count ?fv \<sigma> f (left ?g))
              = flow_delta_x ctx src dst"
    using feasible_constraint[OF assms(2) h] cnt[OF v(3)] cnt[OF v(4)]
    by (simp add: satisfied_def plain_def)
  have hy: "int (activated_count ?fv \<sigma> f (up ?g)) - int (activated_count ?fv \<sigma> f (down ?g))
              = flow_delta_y ctx src dst"
    using feasible_constraint[OF assms(2) vv] cnt[OF v(1)] cnt[OF v(2)]
    by (simp add: satisfied_def plain_def)
  show ?thesis using sd hx hy G by blast
qed

subsection \<open>Decoding (C9)\<close>

lemma fill_maps_src_other:
  "r \<notin> link_source m ` set ls \<Longrightarrow> fst (fill_maps m ls maps) r = fst maps r"
  by (induction ls arbitrary: maps) (auto simp: Let_def link_source_def)

lemma fill_maps_src:
  "l \<in> set ls \<Longrightarrow> inj_on (link_source m) (set ls) \<Longrightarrow>
   fst (fill_maps m ls maps) (link_source m l) = Some l"
proof (induction ls arbitrary: maps)
  case Nil
  then show ?case by simp
next
  case (Cons h t)
  let ?maps' = "((fst maps)(link_source m h \<mapsto> h), (snd maps)(link_sink m h \<mapsto> True))"
  have step: "fill_maps m (h # t) maps = fill_maps m t ?maps'"
    by (simp add: Let_def link_source_def link_sink_def)
  have inj: "inj_on (link_source m) (set t)" using Cons.prems(2) by (simp add: inj_on_def)
  show ?case
  proof (cases "l \<in> set t")
    case True
    then show ?thesis unfolding step by (rule Cons.IH[OF _ inj])
  next
    case False
    then have lh: "l = h" using Cons.prems(1) by simp
    have "link_source m h \<notin> link_source m ` set t"
    proof
      assume "link_source m h \<in> link_source m ` set t"
      then obtain x where "x \<in> set t" "link_source m h = link_source m x" by auto
      then have "h = x" using Cons.prems(2) by (auto simp: inj_on_def)
      then show False using \<open>x \<in> set t\<close> False lh by simp
    qed
    then show ?thesis unfolding step lh by (simp add: fill_maps_src_other)
  qed
qed

lemma fill_maps_dst:
  "snd (fill_maps m ls maps) r =
     (if r \<in> link_sink m ` set ls then Some True else snd maps r)"
  by (induction ls arbitrary: maps) (auto simp: Let_def link_sink_def)

lemma find_unique:
  "x \<in> set xs \<Longrightarrow> P x \<Longrightarrow> (\<forall>y\<in>set xs. P y \<longrightarrow> y = x) \<Longrightarrow> find P xs = Some x"
proof (induction xs)
  case Nil
  then show ?case by simp
next
  case (Cons a xs)
  show ?case
  proof (cases "P a")
    case True
    then have "a = x" using Cons.prems(3) by simp
    then show ?thesis using True by simp
  next
    case False
    then have mem: "x \<in> set xs" using Cons.prems(1,2) by auto
    have rest: "\<forall>y\<in>set xs. P y \<longrightarrow> y = x" using Cons.prems(3) by simp
    have "find P xs = Some x" by (rule Cons.IH[OF mem Cons.prems(2) rest])
    then show ?thesis using False by simp
  qed
qed

lemma is_chain_sources_sub:
  "is_chain m (l # rest) \<Longrightarrow> set (map (link_source m) rest) \<subseteq> set (map (link_sink m) (l # rest))"
proof (induction rest arbitrary: l)
  case Nil
  show ?case by simp
next
  case (Cons a rest)
  then have 1: "link_sink m l = link_source m a" and 2: "is_chain m (a # rest)" by simp_all
  from Cons.IH[OF 2] have "set (map (link_source m) rest) \<subseteq> set (map (link_sink m) (a # rest))" .
  then show ?case using 1 by auto
qed

lemma is_chain_distinct_sources:
  "is_chain m (l # rest) \<Longrightarrow> distinct (link_source m l # map (link_sink m) (l # rest)) \<Longrightarrow>
   distinct (map (link_source m) (l # rest))"
proof (induction rest arbitrary: l)
  case Nil
  show ?case by simp
next
  case (Cons a rest)
  have 1: "link_sink m l = link_source m a" and 2: "is_chain m (a # rest)"
    using Cons.prems(1) by simp_all
  have d: "distinct (link_source m a # map (link_sink m) (a # rest))"
    using Cons.prems(2) 1 by simp
  have ih: "distinct (map (link_source m) (a # rest))" by (rule Cons.IH[OF 2 d])
  have sub: "set (map (link_source m) (a # rest)) \<subseteq> set (map (link_sink m) (l # a # rest))"
    using is_chain_sources_sub[OF Cons.prems(1)] .
  have "link_source m l \<notin> set (map (link_sink m) (l # a # rest))" using Cons.prems(2) by simp
  then have "link_source m l \<notin> set (map (link_source m) (a # rest))" using sub by blast
  then show ?case using ih by simp
qed

lemma is_chain_last_sink:
  "is_chain m (l # rest) \<Longrightarrow> distinct (link_source m l # map (link_sink m) (l # rest)) \<Longrightarrow>
   link_sink m (last (l # rest)) \<notin> set (map (link_source m) (l # rest))"
proof (induction rest arbitrary: l)
  case Nil
  then show ?case by simp
next
  case (Cons a rest)
  have 1: "link_sink m l = link_source m a" and 2: "is_chain m (a # rest)"
    using Cons.prems(1) by simp_all
  have d: "distinct (link_source m a # map (link_sink m) (a # rest))"
    using Cons.prems(2) 1 by simp
  have ih: "link_sink m (last (a # rest)) \<notin> set (map (link_source m) (a # rest))"
    by (rule Cons.IH[OF 2 d])
  have "last (a # rest) \<in> set (a # rest)" by (rule last_in_set) simp
  then have "link_sink m (last (a # rest)) \<in> set (map (link_sink m) (a # rest))" by simp
  moreover have "link_source m l \<notin> set (map (link_sink m) (a # rest))"
    using Cons.prems(2) by simp
  ultimately have "link_sink m (last (a # rest)) \<noteq> link_source m l" by metis
  then show ?case using ih by simp
qed

lemma chain_loop_follows:
  assumes "is_chain m (l # rest)"
    and "\<forall>x\<in>set rest. src_map (link_source m x) = Some x"
    and "src_map (link_sink m (last (l # rest))) = None"
  shows "chain_loop m src_map l acc = Some (acc @ l # rest)"
  using assms
proof (induction rest arbitrary: l acc)
  case Nil
  then have "src_map (sink_router (get_single_noc_link m l)) = None"
    by (simp add: link_sink_def)
  then show ?case
    by (subst chain_loop.simps) (simp add: Let_def)
next
  case (Cons l' rest)
  have "link_sink m l = link_source m l'" using Cons.prems(1) by simp
  moreover have "src_map (link_source m l') = Some l'" using Cons.prems(2) by simp
  ultimately have nxt: "src_map (sink_router (get_single_noc_link m l)) = Some l'"
    by (simp add: link_sink_def)
  have c: "is_chain m (l' # rest)" using Cons.prems(1) by simp
  have s: "\<forall>x\<in>set rest. src_map (link_source m x) = Some x" using Cons.prems(2) by simp
  have e: "src_map (link_sink m (last (l' # rest))) = None" using Cons.prems(3) by simp
  have "chain_loop m src_map l' (acc @ [l]) = Some ((acc @ [l]) @ l' # rest)"
    by (rule Cons.IH[OF c s e])
  then have ih: "chain_loop m src_map l' (acc @ [l]) = Some (acc @ l # l' # rest)" by simp
  show ?case
    by (subst chain_loop.simps) (simp only: Let_def nxt option.case ih)
qed

lemma simple_path_facts:
  assumes "simple_path m p"
  shows "distinct p" "inj_on (link_source m) (set p)"
    "link_source m (hd p) \<notin> link_sink m ` set p"
    "\<forall>l\<in>set (tl p). link_source m l \<in> link_sink m ` set p"
    "link_sink m (last p) \<notin> link_source m ` set p"
proof -
  from assms obtain l rest where p: "p = l # rest" by (cases p) (auto simp: simple_path_def)
  have ch: "is_chain m (l # rest)" and d: "distinct (link_source m l # map (link_sink m) (l # rest))"
    using assms by (simp_all add: simple_path_def p path_routers_def)
  have d_snk: "distinct (map (link_sink m) (l # rest))" using d by simp
  have d_src: "distinct (map (link_source m) (l # rest))"
    by (rule is_chain_distinct_sources[OF ch d])
  show "distinct p" using d_snk unfolding p by (simp only: distinct_map)
  show "inj_on (link_source m) (set p)" using d_src unfolding p by (simp only: distinct_map)
  show "link_source m (hd p) \<notin> link_sink m ` set p" using d by (simp add: p)
  show "\<forall>l\<in>set (tl p). link_source m l \<in> link_sink m ` set p"
    using is_chain_sources_sub[OF ch] by (auto simp: p)
  show "link_sink m (last p) \<notin> link_source m ` set p"
    using is_chain_last_sink[OF ch d] unfolding p by (simp only: set_map not_False_eq_True)
qed

text \<open>The chain order of the links of a simple path, met in any order, is the path.\<close>

lemma chain_order_of_simple_path:
  assumes sp: "simple_path m p" and dl: "distinct links" and eq: "set links = set p"
  shows "sort_noc_links_in_chain_order m links = Some (Inr p) \<and>
         length p = length links \<and>
         link_source m (hd p) \<notin> link_sink m ` set links \<and>
         (\<forall>l\<in>set links. link_source m l \<notin> link_sink m ` set links \<longrightarrow> l = hd p) \<and>
         is_chain m p"
proof -
  note f = simple_path_facts[OF sp]
  from sp obtain l rest where p: "p = l # rest" by (cases p) (auto simp: simple_path_def)
  have ch: "is_chain m p" and valid: "list_all (\<lambda>l. l < length (link_storage m)) p"
    using sp by (simp_all add: simple_path_def)
  have ne: "links \<noteq> []" using eq p by auto
  have valid': "list_all (\<lambda>l. l < length (link_storage m)) links"
    using valid eq by (simp add: list_all_iff)
  have len: "length p = length links"
    using distinct_card[OF f(1)] distinct_card[OF dl] eq by simp
  define maps where "maps = fill_maps m links (Map.empty, Map.empty)"
  have inj: "inj_on (link_source m) (set links)" using f(2) eq by simp
  have src_some: "fst maps (link_source m x) = Some x" if "x \<in> set links" for x
    unfolding maps_def by (rule fill_maps_src[OF that inj])
  have src_none: "fst maps r = None" if "r \<notin> link_source m ` set links" for r
    unfolding maps_def using fill_maps_src_other[OF that] by simp
  have dst: "snd maps r = None \<longleftrightarrow> r \<notin> link_sink m ` set links" for r
    unfolding maps_def by (simp add: fill_maps_dst)
  have start_ok: "link_source m (hd p) \<notin> link_sink m ` set links" using f(3) eq by simp
  have uniq: "\<forall>y\<in>set links. link_source m y \<notin> link_sink m ` set links \<longrightarrow> y = hd p"
  proof (intro ballI impI)
    fix y assume y: "y \<in> set links" "link_source m y \<notin> link_sink m ` set links"
    show "y = hd p"
    proof (rule ccontr)
      assume "y \<noteq> hd p"
      then have "y \<in> set (tl p)" using y(1) eq p by auto
      then show False using f(4) y(2) eq by auto
    qed
  qed
  have hd_in: "hd p \<in> set links" using eq p by auto
  have start: "find (\<lambda>l. snd maps (source_router (get_single_noc_link m l)) = None) links = Some l"
  proof -
    have "find (\<lambda>x. snd maps (link_source m x) = None) links = Some (hd p)"
      by (rule find_unique[OF hd_in]) (use start_ok uniq in \<open>simp_all add: dst\<close>)
    then show ?thesis by (simp add: p link_source_def)
  qed
  have loop: "chain_loop m (fst maps) l [] = Some ([] @ l # rest)"
  proof (rule chain_loop_follows)
    show "is_chain m (l # rest)" using ch p by simp
    show "\<forall>x\<in>set rest. fst maps (link_source m x) = Some x"
      using src_some eq p by auto
    show "fst maps (link_sink m (last (l # rest))) = None"
      using f(5) eq p by (intro src_none) simp
  qed
  have "sort_noc_links_in_chain_order m links = Some (Inr p)"
    unfolding sort_noc_links_in_chain_order_def
    using ne valid' start loop len
    by (simp add: Let_def maps_def[symmetric] p)
  then show ?thesis using len start_ok uniq ch by blast
qed

lemma sort_routes_length:
  "sort_routes m rs = Some (Inr rs') \<Longrightarrow> length rs' = length rs"
  by (induction rs arbitrary: rs') (auto split: option.splits sum.splits)

lemma collect_routes_length [simp]:
  "length (collect_routes fv response keys routes) = length routes"
  by (induction keys arbitrary: routes) (auto split: option.splits)

lemma chain_order_of_empty: "sort_noc_links_in_chain_order m [] = Some (Inr [])"
  by (simp add: sort_noc_links_in_chain_order_def)

lemma collect_routes_nth:
  "\<forall>k\<in>set ks. fst k < length rs \<Longrightarrow> f < length rs \<Longrightarrow>
   collect_routes fv response ks rs ! f
     = rs ! f @ map snd (filter (\<lambda>k. fst k = f \<and> key_selected fv response k) ks)"
proof (induction ks arbitrary: rs)
  case Nil
  then show ?case by simp
next
  case (Cons k ks)
  let ?rs = "(case fv k of
                None \<Rightarrow> rs
              | Some var \<Rightarrow>
                  if SolutionBooleanValue response var
                  then rs[fst k := rs ! fst k @ [snd k]]
                  else rs)"
  have len: "length ?rs = length rs" by (simp split: option.splits)
  have k: "fst k < length rs" using Cons.prems(1) by simp
  have here: "?rs ! f = rs ! f @ (if fst k = f \<and> key_selected fv response k then [snd k] else [])"
    using k Cons.prems(2) by (auto simp: key_selected_def nth_list_update split: option.splits)
  have "collect_routes fv response ks ?rs ! f
          = ?rs ! f @ map snd (filter (\<lambda>k. fst k = f \<and> key_selected fv response k) ks)"
    by (rule Cons.IH) (use Cons.prems len in simp_all)
  then show ?case unfolding here by simp
qed

lemma sort_routes_all:
  "length ps = length rs \<Longrightarrow>
   \<forall>i<length rs. sort_noc_links_in_chain_order m (rs ! i) = Some (Inr (ps ! i)) \<Longrightarrow>
   sort_routes m rs = Some (Inr ps)"
proof (induction rs arbitrary: ps)
  case Nil
  then show ?case by simp
next
  case (Cons r rs)
  from Cons.prems(1) obtain q qs where ps: "ps = q # qs" by (cases ps) auto
  have hd: "sort_noc_links_in_chain_order m r = Some (Inr q)"
    using Cons.prems(2) ps by auto
  have "sort_routes m rs = Some (Inr qs)"
  proof (rule Cons.IH)
    show "length qs = length rs" using Cons.prems(1) ps by simp
    show "\<forall>i<length rs. sort_noc_links_in_chain_order m (rs ! i) = Some (Inr (qs ! i))"
      using Cons.prems(2) ps by auto
  qed
  then show ?case using hd ps by simp
qed

text \<open>
  Claim C9.  Let the solver's response be accepted, let the iteration over the flow-link
  variables meet every entry once (in whatever order), and let the selected links of every
  traffic flow \<open>f\<close> either be none or be the links of a simple directed path \<open>p f\<close>
  (consecutive links share a router, no router is visited twice).  Then the decoder
  \<^verbatim>\<open>convert_vars_to_routes\<close> returns, and the route it returns for \<open>f\<close> is \<open>p f\<close>: it starts
  with the one selected link whose source router is the sink router of no selected link of
  \<open>f\<close>, every further link starts where the previous one ends, and the route has as many
  links as were selected, so the assertion on the route length holds.
\<close>

theorem convert_vars_to_routes_simple_paths:
  assumes st: "status response = FEASIBLE \<or> status response = OPTIMAL"
    and dk: "distinct (visit fv)" and sk: "set (visit fv) = dom fv"
    and fl: "\<forall>k\<in>dom fv. fst k < n_flows ctx"
    and ps: "\<forall>f<n_flows ctx.
               (p f = [] \<or> simple_path (noc_model (noc_ctx ctx)) (p f)) \<and>
               set (p f) = selected_links fv response f"
  shows "convert_vars_to_routes ctx visit fv response = Some (Inr (map p [0..<n_flows ctx])) \<and>
         (\<forall>f<n_flows ctx. p f \<noteq> [] \<longrightarrow>
            length (p f) = card (selected_links fv response f) \<and>
            link_source (noc_model (noc_ctx ctx)) (hd (p f))
              \<notin> link_sink (noc_model (noc_ctx ctx)) ` selected_links fv response f \<and>
            (\<forall>l\<in>selected_links fv response f.
               link_source (noc_model (noc_ctx ctx)) l
                 \<notin> link_sink (noc_model (noc_ctx ctx)) ` selected_links fv response f
               \<longrightarrow> l = hd (p f)) \<and>
            is_chain (noc_model (noc_ctx ctx)) (p f))"
proof -
  let ?m = "noc_model (noc_ctx ctx)" and ?n = "n_flows ctx"
  let ?ks = "visit fv"
  let ?got = "\<lambda>f. map snd (filter (\<lambda>k. fst k = f \<and> key_selected fv response k) ?ks)"
  let ?rs = "collect_routes fv response ?ks (replicate ?n [])"
  have in_range: "\<forall>k\<in>set ?ks. fst k < length (replicate ?n ([] :: NocLinkId list))"
    using fl sk by simp
  have nth: "?rs ! f = ?got f" if "f < ?n" for f
    using collect_routes_nth[OF in_range, of f fv response] that by simp
  have dg: "distinct (?got f)" for f
  proof -
    have "inj_on snd {k. fst k = f}" by (auto simp: inj_on_def)
    then have "inj_on snd (set (filter (\<lambda>k. fst k = f \<and> key_selected fv response k) ?ks))"
      by (rule inj_on_subset) auto
    then show ?thesis using dk by (simp add: distinct_map)
  qed
  have sg: "set (?got f) = selected_links fv response f" for f
  proof -
    have "(f, l) \<in> set ?ks" if "key_selected fv response (f, l)" for l
      using that sk by (auto simp: key_selected_def split: option.splits)
    then show ?thesis by (force simp: selected_links_def)
  qed
  have each: "sort_noc_links_in_chain_order ?m (?rs ! f) = Some (Inr (p f)) \<and>
              (p f \<noteq> [] \<longrightarrow>
                 length (p f) = card (selected_links fv response f) \<and>
                 link_source ?m (hd (p f)) \<notin> link_sink ?m ` selected_links fv response f \<and>
                 (\<forall>l\<in>selected_links fv response f.
                    link_source ?m l \<notin> link_sink ?m ` selected_links fv response f
                    \<longrightarrow> l = hd (p f)) \<and>
                 is_chain ?m (p f))"
    if f: "f < ?n" for f
  proof (cases "p f = []")
    case True
    then have "?got f = []" using ps f sg[of f] by (metis set_empty)
    then show ?thesis using True nth[OF f] by (simp add: chain_order_of_empty)
  next
    case False
    then have sp: "simple_path ?m (p f)" and eq: "set (?got f) = set (p f)"
      using ps f sg[of f] by auto
    note c = chain_order_of_simple_path[OF sp dg eq, unfolded sg]
    have "length (p f) = card (selected_links fv response f)"
      using c distinct_card[OF dg, of f] by (simp only: sg)
    then show ?thesis using c unfolding nth[OF f] by blast
  qed
  have "sort_routes ?m ?rs = Some (Inr (map p [0..<?n]))"
  proof (rule sort_routes_all)
    show "length (map p [0..<?n]) = length ?rs" by simp
    show "\<forall>i<length ?rs. sort_noc_links_in_chain_order ?m (?rs ! i)
                              = Some (Inr (map p [0..<?n] ! i))"
      using each by simp
  qed
  then have "convert_vars_to_routes ctx visit fv response = Some (Inr (map p [0..<?n]))"
    using st by (simp add: convert_vars_to_routes_def n_flows_def)
  then show ?thesis using each by blast
qed

subsection \<open>Outcome of the solver (C8)\<close>

text \<open>
  Claim C8.  Once the model has been built, \<^verbatim>\<open>noc_sat_route\<close> decodes routes exactly when
  the status of the solver's response is \<open>FEASIBLE\<close> or \<open>OPTIMAL\<close> (its result is then
  the result of \<^verbatim>\<open>convert_vars_to_routes\<close>, with one route per traffic flow when that
  returns routes); for every other status it returns normally with the empty result.
\<close>

theorem noc_sat_route_by_status:
  assumes "build_sat_model ctx visit res = Inr sat"
  shows "(status (solve (sat_cp_model sat)) = FEASIBLE \<or> status (solve (sat_cp_model sat)) = OPTIMAL
            \<longrightarrow> noc_sat_route ctx visit solve flag res =
                  convert_vars_to_routes ctx visit (sat_flow_link_vars sat) (solve (sat_cp_model sat))) \<and>
         (status (solve (sat_cp_model sat)) \<noteq> FEASIBLE \<and> status (solve (sat_cp_model sat)) \<noteq> OPTIMAL
            \<longrightarrow> noc_sat_route ctx visit solve flag res = Some (Inr [])) \<and>
         (\<forall>routes. noc_sat_route ctx visit solve flag res = Some (Inr routes) \<and> routes \<noteq> []
            \<longrightarrow> (status (solve (sat_cp_model sat)) = FEASIBLE \<or>
                  status (solve (sat_cp_model sat)) = OPTIMAL) \<and> length routes = n_flows ctx)"
proof -
  have a: "noc_sat_route ctx visit solve flag res =
             convert_vars_to_routes ctx visit (sat_flow_link_vars sat) (solve (sat_cp_model sat))"
    if "status (solve (sat_cp_model sat)) = FEASIBLE \<or> status (solve (sat_cp_model sat)) = OPTIMAL"
    using that assms by (simp add: noc_sat_route_def Let_def)
  have b: "noc_sat_route ctx visit solve flag res = Some (Inr [])"
    if "status (solve (sat_cp_model sat)) \<noteq> FEASIBLE \<and> status (solve (sat_cp_model sat)) \<noteq> OPTIMAL"
    using that assms by (simp add: noc_sat_route_def Let_def)
  have c: "(status (solve (sat_cp_model sat)) = FEASIBLE \<or>
            status (solve (sat_cp_model sat)) = OPTIMAL) \<and> length routes = n_flows ctx"
    if r: "noc_sat_route ctx visit solve flag res = Some (Inr routes) \<and> routes \<noteq> []" for routes
  proof -
    have st: "status (solve (sat_cp_model sat)) = FEASIBLE \<or> status (solve (sat_cp_model sat)) = OPTIMAL"
      using b r by fastforce
    then have "convert_vars_to_routes ctx visit (sat_flow_link_vars sat) (solve (sat_cp_model sat))
                 = Some (Inr routes)"
      using a r by simp
    then have "length routes = n_flows ctx"
      using st by (auto simp: convert_vars_to_routes_def n_flows_def dest!: sort_routes_length)
    then show ?thesis using st by simp
  qed
  show ?thesis using a b c by blast
qed

subsection \<open>A ring of three routers, worked out\<close>

lemmas sat_routing_defs =
  build_sat_model_def create_flow_link_vars_def constrain_latency_overrun_vars_def
  forbid_illegal_turns_def create_congested_link_vars_def add_continuity_constraints_def
  group_noc_links_based_on_direction_def add_distance_constraints_def
  rescale_traffic_flow_bandwidths_def comp_max_number_of_traversed_links_def
  get_all_traffic_flow_id_def get_single_noc_traffic_flow_def get_traffic_flow_route_def
  get_noc_link_keys_def get_single_noc_link_def get_single_noc_router_def
  get_noc_router_outgoing_links_def get_noc_router_incoming_links_def
  get_router_physical_location_def get_router_at_grid_location_def convert_router_id_def
  get_flow_link_vars_def flow_link_var_at_def
  NewBoolVar_def NewIntVar_def add_constraint_def add_constraint_if_def AddHint_def Minimize_def
  empty_cp_model_def expr_zero_def expr_const_def expr_int_var_def expr_add_def expr_scale_def
  expr_sub_def expr_sum_def latency_overrun_sum_of_def agg_bw_expr_of_def

lemma line_ring_model: "build_sat_model line_ring_ctx key_order 4 = Inr line_ring_sat"
  by (simp add: sat_routing_defs binary64_defs line_ring_ctx_def line_ring_storage_def
      key_order_def line_ring_sat_def line_ring_cp_def Let_def upt_rec[of _ "numeral _"]
      numeral_2_eq_2)

lemmas cp_semantics_defs =
  feasible_def in_domains_def satisfied_def eval_expr_def count_true_def bool_value_def

lemma path_assignment_feasible: "feasible path_assignment (sat_cp_model line_ring_sat)"
  by (simp add: cp_semantics_defs line_ring_sat_def line_ring_cp_def path_assignment_def
      upt_rec[of _ "numeral _"])

lemma cycle_assignment_feasible: "feasible cycle_assignment (sat_cp_model line_ring_sat)"
  by (simp add: cp_semantics_defs line_ring_sat_def line_ring_cp_def cycle_assignment_def
      upt_rec[of _ "numeral _"])

lemma line_ring_sizes [simp]: "n_flows line_ring_ctx = 1" "n_links line_ring_ctx = 3"
  by (simp_all add: n_flows_def n_links_def line_ring_ctx_def line_ring_storage_def)

theorem latency_overrun_is_relu_witness:
  "build_sat_model line_ring_ctx key_order 4 = Inr line_ring_sat \<and>
   feasible cycle_assignment (sat_cp_model line_ring_sat) \<and>
   (0, 0) \<in> set (sat_latency_overrun_vars line_ring_sat) \<and>
   comp_max_number_of_traversed_links line_ring_ctx 0 = Inr 2 \<and>
   double_div
     (double_sub (flow_latency line_ring_ctx 0)
                 (storage_router_latency (noc_model (noc_ctx line_ring_ctx))))
     (double_add (storage_link_latency (noc_model (noc_ctx line_ring_ctx)))
                 (storage_router_latency (noc_model (noc_ctx line_ring_ctx)))) = Finite (5 / 2) \<and>
   activated_count (sat_flow_link_vars line_ring_sat) cycle_assignment 0
     (get_noc_link_keys (noc_model (noc_ctx line_ring_ctx))) = 3 \<and>
   cycle_assignment 0 = 1"
proof -
  have m: "(0, 0) \<in> set (sat_latency_overrun_vars line_ring_sat)"
    by (simp add: line_ring_sat_def)
  have n: "comp_max_number_of_traversed_links line_ring_ctx 0 = Inr 2"
    by (simp add: comp_max_number_of_traversed_links_def get_single_noc_traffic_flow_def
        binary64_defs line_ring_ctx_def line_ring_storage_def Let_def)
  have q: "double_div
     (double_sub (flow_latency line_ring_ctx 0)
                 (storage_router_latency (noc_model (noc_ctx line_ring_ctx))))
     (double_add (storage_link_latency (noc_model (noc_ctx line_ring_ctx)))
                 (storage_router_latency (noc_model (noc_ctx line_ring_ctx)))) = Finite (5 / 2)"
    by (simp add: flow_latency_def get_single_noc_traffic_flow_def binary64_defs
        line_ring_ctx_def line_ring_storage_def)
  have c: "activated_count (sat_flow_link_vars line_ring_sat) cycle_assignment 0
             (get_noc_link_keys (noc_model (noc_ctx line_ring_ctx))) = 3"
    by (simp add: activated_count_def uses_link_def bool_value_def line_ring_sat_def
        cycle_assignment_def get_noc_link_keys_def line_ring_ctx_def line_ring_storage_def
        upt_rec[of _ "numeral _"])
  from latency_overrun_is_relu[OF line_ring_model cycle_assignment_feasible m]
  have "cycle_assignment 0 = 1" unfolding n c by auto
  then show ?thesis using line_ring_model cycle_assignment_feasible m n q c by blast
qed

lemma line_ring_rescaled: "rescale_traffic_flow_bandwidths line_ring_ctx 4 = Inr [1]"
  by (simp add: rescale_traffic_flow_bandwidths_def binary64_defs line_ring_ctx_def
      line_ring_storage_def)

theorem latency_overrun_var_iff_constrained_witness:
  "0 < n_flows line_ring_ctx \<and>
   flow_latency line_ring_ctx 0 < 1 / 10 \<and>
   snd (snd (create_flow_link_vars line_ring_ctx empty_cp_model Map.empty [])) = [(0, 0)] \<and>
   variables (fst (create_flow_link_vars line_ring_ctx empty_cp_model Map.empty [])) ! 0 = (0, 20) \<and>
   comp_max_number_of_traversed_links line_ring_ctx 0 \<noteq> Inl LatencyNotConstrained"
proof -
  let ?r = "create_flow_link_vars line_ring_ctx empty_cp_model Map.empty []"
  have e: "?r = (fst ?r, fst (snd ?r), snd (snd ?r))" by simp
  have f: "0 < n_flows line_ring_ctx" by simp
  have lat: "flow_latency line_ring_ctx 0 < 1 / 10"
    by (simp add: flow_latency_def get_single_noc_traffic_flow_def line_ring_ctx_def)
  have lov: "snd (snd ?r) = [(0, 0)]"
    by (simp add: sat_routing_defs line_ring_ctx_def line_ring_storage_def Let_def
        upt_rec[of _ "numeral _"])
  have dom: "variables (fst ?r) ! 0 = (0, 20)"
    by (simp add: sat_routing_defs line_ring_ctx_def line_ring_storage_def Let_def
        upt_rec[of _ "numeral _"])
  from latency_overrun_var_iff_constrained[OF e f] lat
  have "comp_max_number_of_traversed_links line_ring_ctx 0 \<noteq> Inl LatencyNotConstrained"
    by simp
  then show ?thesis using f lat lov dom by blast
qed

theorem congested_iff_overloaded_witness:
  "build_sat_model line_ring_ctx key_order 4 = Inr line_ring_sat \<and>
   feasible path_assignment (sat_cp_model line_ring_sat) \<and>
   0 < n_links line_ring_ctx \<and>
   rescale_traffic_flow_bandwidths line_ring_ctx 4 = Inr [1] \<and>
   link_load [1] (sat_flow_link_vars line_ring_sat) path_assignment [0..<n_flows line_ring_ctx] 0 = 1 \<and>
   \<not> bool_value path_assignment (sat_link_congested_vars line_ring_sat ! 0)"
proof -
  have l: "0 < n_links line_ring_ctx" by simp
  have load: "link_load [1] (sat_flow_link_vars line_ring_sat) path_assignment
                [0..<n_flows line_ring_ctx] 0 = 1"
    by (simp add: link_load_def flow_link_value_def line_ring_sat_def path_assignment_def)
  from congested_iff_overloaded[OF line_ring_model path_assignment_feasible l]
  have "\<not> bool_value path_assignment (sat_link_congested_vars line_ring_sat ! 0)"
    unfolding line_ring_rescaled using load by auto
  then show ?thesis
    using line_ring_model path_assignment_feasible l line_ring_rescaled load by blast
qed

theorem distance_constraints_fix_displacement_witness:
  "build_sat_model line_ring_ctx key_order 4 = Inr line_ring_sat \<and>
   feasible cycle_assignment (sat_cp_model line_ring_sat) \<and>
   0 < n_flows line_ring_ctx \<and>
   flow_source_router line_ring_ctx 0 = Some 0 \<and> flow_sink_router line_ring_ctx 0 = Some 1 \<and>
   flow_delta_x line_ring_ctx 0 1 = 1 \<and>
   int (activated_count (sat_flow_link_vars line_ring_sat) cycle_assignment 0 (right (sat_groups line_ring_sat)))
     - int (activated_count (sat_flow_link_vars line_ring_sat) cycle_assignment 0 (left (sat_groups line_ring_sat)))
     = 1 \<and>
   int (activated_count (sat_flow_link_vars line_ring_sat) cycle_assignment 0 (up (sat_groups line_ring_sat)))
     - int (activated_count (sat_flow_link_vars line_ring_sat) cycle_assignment 0 (down (sat_groups line_ring_sat)))
     = flow_delta_y line_ring_ctx 0 1"
proof -
  have f: "0 < n_flows line_ring_ctx" by simp
  have s: "flow_source_router line_ring_ctx 0 = Some 0" "flow_sink_router line_ring_ctx 0 = Some 1"
    by (simp_all add: flow_source_router_def flow_sink_router_def get_router_at_grid_location_def
        get_single_noc_traffic_flow_def get_router_physical_location_def
        line_ring_ctx_def line_ring_storage_def)
  have dx: "flow_delta_x line_ring_ctx 0 1 = 1"
    by (simp add: flow_delta_x_def get_single_noc_router_def get_router_physical_location_def
        line_ring_ctx_def line_ring_storage_def)
  from distance_constraints_fix_displacement[OF line_ring_model cycle_assignment_feasible f]
  have "int (activated_count (sat_flow_link_vars line_ring_sat) cycle_assignment 0 (right (sat_groups line_ring_sat)))
     - int (activated_count (sat_flow_link_vars line_ring_sat) cycle_assignment 0 (left (sat_groups line_ring_sat)))
     = 1 \<and>
   int (activated_count (sat_flow_link_vars line_ring_sat) cycle_assignment 0 (up (sat_groups line_ring_sat)))
     - int (activated_count (sat_flow_link_vars line_ring_sat) cycle_assignment 0 (down (sat_groups line_ring_sat)))
     = flow_delta_y line_ring_ctx 0 1"
    unfolding s using dx by auto
  then show ?thesis using line_ring_model cycle_assignment_feasible f s dx by blast
qed

lemma chain_loop_stop:
  "src_map (sink_router (get_single_noc_link m current)) = None \<Longrightarrow>
   chain_loop m src_map current route = Some (route @ [current])"
  by (subst chain_loop.simps) (simp add: Let_def)

lemma chain_loop_step:
  "src_map (sink_router (get_single_noc_link m current)) = Some next_link \<Longrightarrow>
   chain_loop m src_map current route = chain_loop m src_map next_link (route @ [current])"
  by (subst chain_loop.simps) (simp add: Let_def)

theorem noc_sat_route_by_status_witness:
  "build_sat_model line_ring_ctx key_order 4 = Inr line_ring_sat \<and>
   noc_sat_route line_ring_ctx key_order infeasible_solver False 4 = Some (Inr []) \<and>
   noc_sat_route line_ring_ctx key_order path_solver False 4 = Some (Inr [[0]])"
proof -
  note t1 = noc_sat_route_by_status[OF line_ring_model, of infeasible_solver False]
  note t2 = noc_sat_route_by_status[OF line_ring_model, of path_solver False]
  have a: "noc_sat_route line_ring_ctx key_order infeasible_solver False 4 = Some (Inr [])"
    using t1 by (simp add: infeasible_solver_def)
  have "convert_vars_to_routes line_ring_ctx key_order (sat_flow_link_vars line_ring_sat)
          (path_solver (sat_cp_model line_ring_sat)) = Some (Inr [[0]])"
    by (simp add: convert_vars_to_routes_def path_solver_def key_order_def line_ring_sat_def
        SolutionBooleanValue_def bool_value_def path_assignment_def
        sort_noc_links_in_chain_order_def get_single_noc_link_def chain_loop_stop
        line_ring_ctx_def line_ring_storage_def Let_def)
  then have b: "noc_sat_route line_ring_ctx key_order path_solver False 4 = Some (Inr [[0]])"
    using t2 by (simp add: path_solver_def)
  show ?thesis using line_ring_model a b by blast
qed

theorem convert_vars_to_routes_simple_paths_witness:
  "simple_path line_ring_storage [1, 2] \<and>
   selected_links (sat_flow_link_vars line_ring_sat) detour_response 0 = {1, 2} \<and>
   collect_routes (sat_flow_link_vars line_ring_sat) detour_response
     (key_order (sat_flow_link_vars line_ring_sat)) [[]] = [[2, 1]] \<and>
   convert_vars_to_routes line_ring_ctx key_order (sat_flow_link_vars line_ring_sat)
     detour_response = Some (Inr [[1, 2]])"
proof -
  let ?fv = "sat_flow_link_vars line_ring_sat"
  have m: "noc_model (noc_ctx line_ring_ctx) = line_ring_storage"
    by (simp add: line_ring_ctx_def)
  have sp: "simple_path line_ring_storage [1, 2]"
    by (simp add: simple_path_def path_routers_def link_source_def link_sink_def
        get_single_noc_link_def line_ring_storage_def)
  have sel: "selected_links ?fv detour_response 0 = {1, 2}"
    by (auto simp: selected_links_def key_selected_def SolutionBooleanValue_def bool_value_def
        detour_response_def line_ring_sat_def split: if_splits)
  have col: "collect_routes ?fv detour_response (key_order ?fv) [[]] = [[2, 1]]"
    by (simp add: key_order_def line_ring_sat_def SolutionBooleanValue_def bool_value_def
        detour_response_def)
  have st: "status detour_response = FEASIBLE \<or> status detour_response = OPTIMAL"
    by (simp add: detour_response_def)
  have dk: "distinct (key_order ?fv)" by (simp add: key_order_def line_ring_sat_def)
  have sk: "set (key_order ?fv) = dom ?fv"
    by (auto simp: key_order_def line_ring_sat_def split: if_splits)
  have fl: "\<forall>k\<in>dom ?fv. fst k < n_flows line_ring_ctx"
    by (auto simp: line_ring_sat_def split: if_splits)
  have ps: "\<forall>f<n_flows line_ring_ctx.
              ([1, 2] = [] \<or> simple_path (noc_model (noc_ctx line_ring_ctx)) [1, 2]) \<and>
              set [1, 2] = selected_links ?fv detour_response f"
    using sp sel by (simp add: m)
  from convert_vars_to_routes_simple_paths[where p = "\<lambda>f. [1, 2]" and visit = key_order
          and fv = "?fv" and response = detour_response and ctx = line_ring_ctx,
          OF st dk sk fl ps]
  have "convert_vars_to_routes line_ring_ctx key_order ?fv detour_response = Some (Inr [[1, 2]])"
    by simp
  then show ?thesis using sp sel col by blast
qed

subsection \<open>Graphs that satisfy the continuity conditions\<close>

lemma path_routers_Cons:
  "is_chain m (l # x # xs) \<Longrightarrow> path_routers m (l # x # xs) = link_source m l # path_routers m (x # xs)"
  by (simp add: path_routers_def)

lemma chain_ranks_sorted:
  "is_chain m p \<Longrightarrow> p \<noteq> [] \<Longrightarrow>
   \<forall>l\<in>set p. (rank :: nat \<Rightarrow> nat) (link_source m l) < rank (link_sink m l) \<Longrightarrow>
   sorted_wrt (<) (map rank (path_routers m p))"
proof (induction p)
  case Nil
  then show ?case by simp
next
  case (Cons l p)
  show ?case
  proof (cases p)
    case Nil
    then show ?thesis using Cons.prems by (simp add: path_routers_def)
  next
    case (Cons x xs)
    have ch: "is_chain m (x # xs)" and lx: "link_sink m l = link_source m x"
      using Cons.prems(1) unfolding Cons by simp_all
    have ih: "sorted_wrt (<) (map rank (path_routers m (x # xs)))"
      using Cons.IH ch Cons.prems(3) unfolding Cons by simp
    have hd: "path_routers m (x # xs) = link_source m x # map (link_sink m) (x # xs)"
      by (simp add: path_routers_def)
    have lt: "rank (link_source m l) < rank (link_source m x)"
      using Cons.prems(3) lx by simp
    have "sorted_wrt (<) (rank (link_source m l) # rank (link_source m x)
                            # map rank (map (link_sink m) (x # xs)))"
      using ih lt unfolding hd by (auto intro: less_trans)
    then show ?thesis
      unfolding Cons path_routers_Cons[OF Cons.prems(1)[unfolded Cons]] hd by simp
  qed
qed

lemma chain_distinct_routers:
  assumes "is_chain m p" "p \<noteq> []"
    "\<forall>l\<in>set p. (rank :: nat \<Rightarrow> nat) (link_source m l) < rank (link_sink m l)"
  shows "distinct (path_routers m p)"
proof -
  have "distinct (map rank (path_routers m p))"
    using chain_ranks_sorted[OF assms] strict_sorted_iff[of "map rank (path_routers m p)"] by simp
  then show ?thesis by (simp add: distinct_map)
qed

lemma chain_successor:
  "is_chain m p \<Longrightarrow> x \<in> set p \<Longrightarrow> x \<noteq> last p \<Longrightarrow> \<exists>y\<in>set p. link_source m y = link_sink m x"
proof (induction p)
  case Nil
  then show ?case by simp
next
  case (Cons l p)
  show ?case
  proof (cases p)
    case Nil
    then show ?thesis using Cons.prems by simp
  next
    case (Cons y ys)
    have ch: "is_chain m p" and ly: "link_sink m l = link_source m y"
      using Cons.prems(1) unfolding Cons by simp_all
    show ?thesis
    proof (cases "x = l")
      case True
      then show ?thesis using ly Cons by auto
    next
      case False
      then have "x \<in> set p" "x \<noteq> last p" using Cons.prems(2,3) Cons by auto
      from Cons.IH[OF ch this] show ?thesis by auto
    qed
  qed
qed

lemma is_chain_snoc:
  "is_chain m (p @ [l]) = (is_chain m p \<and> (p = [] \<or> link_sink m (last p) = link_source m l))"
proof (induction p)
  case Nil
  then show ?case by simp
next
  case (Cons a p)
  then show ?case by (cases p) auto
qed

lemma chain_above_start:
  assumes "is_chain m p" "p \<noteq> []"
    "\<forall>l\<in>set p. (rank :: nat \<Rightarrow> nat) (link_source m l) < rank (link_sink m l)"
  shows "\<forall>l\<in>set p. rank (link_source m (hd p)) < rank (link_sink m l)"
  using chain_ranks_sorted[OF assms] by (simp add: path_routers_def)

lemma chain_distinct_links:
  assumes "is_chain m p" "p \<noteq> []"
    "\<forall>l\<in>set p. (rank :: nat \<Rightarrow> nat) (link_source m l) < rank (link_sink m l)"
  shows "distinct p"
  using chain_distinct_routers[OF assms] by (simp add: path_routers_def distinct_map)

lemma card_one_member:
  "card S = 1 \<Longrightarrow> \<exists>x. x \<in> S"
  by (auto simp: card_1_singleton_iff)

lemma card_le_one_eq:
  "finite S \<Longrightarrow> card S \<le> 1 \<Longrightarrow> x \<in> S \<Longrightarrow> y \<in> S \<Longrightarrow> x = y"
  by (simp add: card_le_Suc0_iff_eq)

lemma card_pos_member:
  "finite S \<Longrightarrow> x \<in> S \<Longrightarrow> 0 < card S"
  by (auto simp: card_gt_0_iff)

lemma out_links_finite [simp]: "finite A \<Longrightarrow> finite (out_links m A r)"
  by (simp add: out_links_def)

lemma in_links_finite [simp]: "finite A \<Longrightarrow> finite (in_links m A r)"
  by (simp add: in_links_def)

text \<open>A router other than the two endpoints that is entered by an activated link is also left
  by one, and conversely.\<close>

lemma continuity_graph_leave:
  assumes g: "continuity_graph m A src snk" and l: "l \<in> A"
    and r: "link_sink m l \<noteq> src" "link_sink m l \<noteq> snk"
  shows "\<exists>l'\<in>A. link_source m l' = link_sink m l"
proof -
  let ?r = "link_sink m l"
  have fin: "finite A" and v: "?r < length (router_storage m)"
    using g l by (auto simp: continuity_graph_def)
  have "card (in_links m A ?r) = card (out_links m A ?r)"
    using g v r unfolding continuity_graph_def by blast
  moreover have "0 < card (in_links m A ?r)"
    by (rule card_pos_member) (use fin l in \<open>simp_all add: in_links_def\<close>)
  ultimately have "out_links m A ?r \<noteq> {}" by auto
  then show ?thesis by (auto simp: out_links_def)
qed

lemma continuity_graph_enter:
  assumes g: "continuity_graph m A src snk" and l: "l \<in> A"
    and r: "link_source m l \<noteq> src" "link_source m l \<noteq> snk"
  shows "\<exists>l'\<in>A. link_sink m l' = link_source m l"
proof -
  let ?r = "link_source m l"
  have fin: "finite A" and v: "?r < length (router_storage m)"
    using g l by (auto simp: continuity_graph_def)
  have "card (in_links m A ?r) = card (out_links m A ?r)"
    using g v r unfolding continuity_graph_def by blast
  moreover have "0 < card (out_links m A ?r)"
    by (rule card_pos_member) (use fin l in \<open>simp_all add: out_links_def\<close>)
  ultimately have "in_links m A ?r \<noteq> {}" by auto
  then show ?thesis by (auto simp: in_links_def)
qed

lemma continuity_graph_out_unique:
  assumes g: "continuity_graph m A src snk" and l: "l \<in> A" "l' \<in> A"
    and e: "link_source m l = link_source m l'" and r: "link_source m l \<noteq> snk"
  shows "l = l'"
proof -
  let ?r = "link_source m l"
  have fin: "finite A" and v: "?r < length (router_storage m)"
    using g l by (auto simp: continuity_graph_def)
  have "card (out_links m A ?r) \<le> 1"
  proof (cases "?r = src")
    case True
    then show ?thesis using g by (simp add: continuity_graph_def)
  next
    case False
    then show ?thesis using g v r unfolding continuity_graph_def by blast
  qed
  then show ?thesis
    by (rule card_le_one_eq[OF out_links_finite[OF fin]]) (use l e in \<open>simp_all add: out_links_def\<close>)
qed

text \<open>Following activated links from the source router reaches the sink router, when the
  ranks of the routers increase along every activated link.\<close>

lemma continuity_graph_reaches_sink:
  assumes g: "continuity_graph m A src snk"
    and inc: "\<forall>l\<in>A. (rank :: nat \<Rightarrow> nat) (link_source m l) < rank (link_sink m l)"
  shows "p \<noteq> [] \<Longrightarrow> is_chain m p \<Longrightarrow> set p \<subseteq> A \<Longrightarrow> link_source m (hd p) = src \<Longrightarrow>
         \<exists>q. q \<noteq> [] \<and> is_chain m q \<and> set q \<subseteq> A \<and> link_source m (hd q) = src \<and>
             link_sink m (last q) = snk"
proof (induction "card A - length p" arbitrary: p rule: less_induct)
  case less
  have fin: "finite A" using g by (simp add: continuity_graph_def)
  have incp: "\<forall>l\<in>set p. rank (link_source m l) < rank (link_sink m l)"
    using inc less.prems(3) by blast
  show ?case
  proof (cases "link_sink m (last p) = snk")
    case True
    then show ?thesis using less.prems by blast
  next
    case False
    have lastA: "last p \<in> A" using less.prems(1,3) by auto
    have "rank src < rank (link_sink m (last p))"
      using chain_above_start[OF less.prems(2,1) incp] less.prems(1,4) by simp
    then have ns: "link_sink m (last p) \<noteq> src" by auto
    from continuity_graph_leave[OF g lastA ns False]
    obtain l' where l': "l' \<in> A" "link_source m l' = link_sink m (last p)" by blast
    let ?q = "p @ [l']"
    have ch: "is_chain m ?q" using less.prems(2) l'(2) by (simp add: is_chain_snoc)
    have sub: "set ?q \<subseteq> A" using less.prems(3) l'(1) by simp
    have hd: "link_source m (hd ?q) = src" using less.prems(1,4) by simp
    have "distinct ?q"
      by (rule chain_distinct_links[OF ch, of rank]) (use inc sub in auto)
    then have "length ?q \<le> card A"
      using card_mono[OF fin sub] by (simp add: distinct_card del: set_append)
    then have "card A - length ?q < card A - length p" by simp
    from less.hyps[OF this _ ch sub hd] show ?thesis by simp
  qed
qed

text \<open>No activated link ends above the sink router.\<close>

lemma continuity_graph_below_sink:
  assumes g: "continuity_graph m A src snk"
    and inc: "\<forall>l\<in>A. (rank :: nat \<Rightarrow> nat) (link_source m l) < rank (link_sink m l)"
    and lt: "rank src < rank snk"
  shows "\<forall>l\<in>A. rank (link_sink m l) \<le> rank snk"
proof (rule ccontr)
  assume neg: "\<not> (\<forall>l\<in>A. rank (link_sink m l) \<le> rank snk)"
  define B where "B = {l \<in> A. rank snk < rank (link_sink m l)}"
  have fin: "finite A" using g by (simp add: continuity_graph_def)
  have finB: "finite B" "B \<noteq> {}" using fin neg by (auto simp: B_def)
  define K where "K = Max ((\<lambda>l. rank (link_sink m l)) ` B)"
  have "K \<in> (\<lambda>l. rank (link_sink m l)) ` B"
    unfolding K_def by (rule Max_in) (use finB in auto)
  then obtain l where l: "l \<in> B" "rank (link_sink m l) = K" by auto
  have top: "rank (link_sink m x) \<le> K" if "x \<in> B" for x
    unfolding K_def by (rule Max_ge) (use finB that in auto)
  have lA: "l \<in> A" and above: "rank snk < rank (link_sink m l)" using l(1) by (auto simp: B_def)
  have "link_sink m l \<noteq> snk" "link_sink m l \<noteq> src" using above lt by auto
  from continuity_graph_leave[OF g lA this(2,1)]
  obtain l' where l': "l' \<in> A" "link_source m l' = link_sink m l" by blast
  have "rank (link_sink m l) < rank (link_sink m l')" using inc l' by force
  then have "l' \<in> B" "K < rank (link_sink m l')" using above l' l(2) by (auto simp: B_def)
  then show False using top[of l'] by simp
qed

text \<open>The graph lemma behind claim C1: a finite set of links that satisfies the
  continuity conditions and has no directed cycle is a simple path from the source
  router to the sink router.\<close>

lemma continuity_graph_path:
  assumes g: "continuity_graph m A src snk"
    and inc: "\<forall>l\<in>A. (rank :: nat \<Rightarrow> nat) (link_source m l) < rank (link_sink m l)"
  shows "\<exists>p. simple_path m p \<and> link_source m (hd p) = src \<and> link_sink m (last p) = snk \<and>
             set p = A"
proof -
  have fin: "finite A" using g by (simp add: continuity_graph_def)
  have "card (out_links m A src) = 1" using g by (simp add: continuity_graph_def)
  from card_one_member[OF this] obtain l0 where l0: "l0 \<in> A" "link_source m l0 = src"
    by (auto simp: out_links_def)
  have "\<exists>q. q \<noteq> [] \<and> is_chain m q \<and> set q \<subseteq> A \<and> link_source m (hd q) = src \<and>
             link_sink m (last q) = snk"
    by (rule continuity_graph_reaches_sink[OF g inc, of "[l0]"]) (use l0 in simp_all)
  then obtain p where p: "p \<noteq> []" "is_chain m p" "set p \<subseteq> A" "link_source m (hd p) = src"
      "link_sink m (last p) = snk" by blast
  have incp: "\<forall>l\<in>set p. rank (link_source m l) < rank (link_sink m l)" using inc p(3) by blast
  have lt: "rank src < rank snk"
    using chain_above_start[OF p(2,1) incp] p(1,4,5) by (auto dest: last_in_set)
  note below = continuity_graph_below_sink[OF g inc lt]
  have no_out: "link_source m l \<noteq> snk" if "l \<in> A" for l
    using below inc that by force
  have sp: "simple_path m p"
    unfolding simple_path_def
    using p(1,2) chain_distinct_routers[OF p(2,1) incp] g p(3)
    by (auto simp: continuity_graph_def list_all_iff)
  have hdp: "hd p \<in> A" using p(1,3) by auto
  have mem: "l \<in> A \<Longrightarrow> l \<in> set p" for l
  proof (induction "rank (link_source m l)" arbitrary: l rule: less_induct)
    case less
    show ?case
    proof (cases "link_source m l = src")
      case True
      have "l = hd p"
        by (rule continuity_graph_out_unique[OF g less.prems hdp])
           (use True p(4) no_out[OF less.prems] in simp_all)
      then show ?thesis using p(1) by simp
    next
      case False
      from continuity_graph_enter[OF g less.prems False no_out[OF less.prems]]
      obtain l' where l': "l' \<in> A" "link_sink m l' = link_source m l" by blast
      have "rank (link_source m l') < rank (link_source m l)" using inc l' by force
      from less.hyps[OF this l'(1)] have in_p: "l' \<in> set p" .
      have "l' \<noteq> last p" using l'(2) p(5) no_out[OF less.prems] by auto
      from chain_successor[OF p(2) in_p this]
      obtain y where y: "y \<in> set p" "link_source m y = link_sink m l'" by blast
      have "y = l"
        by (rule continuity_graph_out_unique[OF g _ less.prems])
           (use y l'(2) p(3) no_out[OF less.prems] in auto)
      then show ?thesis using y(1) by simp
    qed
  qed
  have "set p = A" using p(3) mem by blast
  then show ?thesis using sp p(4,5) by blast
qed

lemma find_user_id_index:
  "distinct (map router_user_id rs) \<Longrightarrow> i < length rs \<Longrightarrow>
   find_user_id rs (router_user_id (rs ! i)) k = Some (k + i)"
proof (induction rs arbitrary: i k)
  case Nil
  then show ?case by simp
next
  case (Cons r rs)
  show ?case
  proof (cases i)
    case 0
    then show ?thesis by simp
  next
    case (Suc j)
    have j: "j < length rs" using Cons.prems(2) Suc by simp
    have "router_user_id (rs ! j) \<in> router_user_id ` set rs" using j by simp
    then have ne: "router_user_id r \<noteq> router_user_id (rs ! j)" using Cons.prems(1) by auto
    have "find_user_id rs (router_user_id (rs ! j)) (Suc k) = Some (Suc k + j)"
      by (rule Cons.IH) (use Cons.prems(1) j in simp_all)
    then show ?thesis using ne Suc by simp
  qed
qed

lemma convert_router_id_index:
  "distinct (map router_user_id (router_storage m)) \<Longrightarrow> r < length (router_storage m) \<Longrightarrow>
   convert_router_id m (router_user_id (router_storage m ! r)) = Some r"
  using find_user_id_index[of "router_storage m" r 0] by (simp add: convert_router_id_def)

lemma activated_outgoing_card:
  "activated_count fv \<sigma> f (get_noc_router_outgoing_links m r)
     = card (out_links m (set (activated_links m fv \<sigma> f)) r)"
proof -
  have "set (filter (uses_link fv \<sigma> f) (get_noc_router_outgoing_links m r))
          = out_links m (set (activated_links m fv \<sigma> f)) r"
    by (auto simp: out_links_def activated_links_def get_noc_router_outgoing_links_def
        link_source_def)
  moreover have "distinct (filter (uses_link fv \<sigma> f) (get_noc_router_outgoing_links m r))"
    by (simp add: get_noc_router_outgoing_links_def get_noc_link_keys_def)
  ultimately show ?thesis
    unfolding activated_count_def using distinct_card by fastforce
qed

lemma activated_incoming_card:
  "activated_count fv \<sigma> f (get_noc_router_incoming_links m r)
     = card (in_links m (set (activated_links m fv \<sigma> f)) r)"
proof -
  have "set (filter (uses_link fv \<sigma> f) (get_noc_router_incoming_links m r))
          = in_links m (set (activated_links m fv \<sigma> f)) r"
    by (auto simp: in_links_def activated_links_def get_noc_router_incoming_links_def
        link_sink_def)
  moreover have "distinct (filter (uses_link fv \<sigma> f) (get_noc_router_incoming_links m r))"
    by (simp add: get_noc_router_incoming_links_def get_noc_link_keys_def)
  ultimately show ?thesis
    unfolding activated_count_def using distinct_card by fastforce
qed

text \<open>What the continuity constraints of a flow say about the numbers of activated links,
  in a feasible assignment of the model that \<^verbatim>\<open>noc_sat_route\<close> builds.\<close>

lemma built_continuity_counts:
  assumes b: "built ctx res sat" and feas: "feasible \<sigma> (sat_cp_model sat)"
    and f: "f < n_flows ctx"
    and d: "distinct (map router_user_id (router_storage (noc_model (noc_ctx ctx))))"
  shows "\<exists>src snk. flow_source_router ctx f = Some src \<and> flow_sink_router ctx f = Some snk \<and>
           activated_count (sat_flow_link_vars sat) \<sigma> f
             (get_noc_router_outgoing_links (noc_model (noc_ctx ctx)) src) = 1 \<and>
           activated_count (sat_flow_link_vars sat) \<sigma> f
             (get_noc_router_incoming_links (noc_model (noc_ctx ctx)) snk) = 1 \<and>
           (\<forall>r<length (router_storage (noc_model (noc_ctx ctx))). r \<noteq> src \<and> r \<noteq> snk \<longrightarrow>
              activated_count (sat_flow_link_vars sat) \<sigma> f
                (get_noc_router_incoming_links (noc_model (noc_ctx ctx)) r) \<le> 1 \<and>
              activated_count (sat_flow_link_vars sat) \<sigma> f
                (get_noc_router_outgoing_links (noc_model (noc_ctx ctx)) r) \<le> 1 \<and>
              activated_count (sat_flow_link_vars sat) \<sigma> f
                (get_noc_router_incoming_links (noc_model (noc_ctx ctx)) r)
              = activated_count (sat_flow_link_vars sat) \<sigma> f
                (get_noc_router_outgoing_links (noc_model (noc_ctx ctx)) r))"
proof -
  let ?cp = "sat_cp_model sat" and ?fv = "sat_flow_link_vars sat"
  let ?m = "noc_model (noc_ctx ctx)"
  let ?out = "get_noc_router_outgoing_links ?m" and ?in = "get_noc_router_incoming_links ?m"
  have fF: "f \<in> {..<n_flows ctx}" using f by simp
  have cnt: "eval_expr \<sigma> (expr_sum (get_flow_link_vars ?fv [f] ls)) = int (activated_count ?fv \<sigma> f ls)"
    if "valid_links ctx ls" for ls
    by (rule eval_sum_flow_vars[OF built_fv_ok[OF b] feas fF that])
  from b f have "flow_continuity_encoded ctx ?cp ?fv f" unfolding built_def Let_def by blast
  then obtain src snk where sd: "flow_source_router ctx f = Some src"
      "flow_sink_router ctx f = Some snk"
    and o: "plain (ExactlyOne (get_flow_link_vars ?fv [f] (?out src))) \<in> set (constraints ?cp)"
    and i: "plain (ExactlyOne (get_flow_link_vars ?fv [f] (?in snk))) \<in> set (constraints ?cp)"
    and rest: "\<forall>r\<in>set (router_storage ?m).
            \<exists>rid. convert_router_id ?m (router_user_id r) = Some rid \<and>
              (rid \<noteq> src \<and> rid \<noteq> snk \<longrightarrow> continuity_encoded ?cp ?m ?fv f rid)"
    unfolding flow_continuity_encoded_def by blast
  have h: "holds \<sigma> k" if "plain k \<in> set (constraints ?cp)" for k
    using feasible_plain_constraint[OF feas] that unfolding plain_def by blast
  have one_out: "activated_count ?fv \<sigma> f (?out src) = 1"
    using h[OF o] by (simp add: count_true_flow_vars)
  have one_in: "activated_count ?fv \<sigma> f (?in snk) = 1"
    using h[OF i] by (simp add: count_true_flow_vars)
  have other: "activated_count ?fv \<sigma> f (?in r) \<le> 1 \<and> activated_count ?fv \<sigma> f (?out r) \<le> 1 \<and>
               activated_count ?fv \<sigma> f (?in r) = activated_count ?fv \<sigma> f (?out r)"
    if r: "r < length (router_storage ?m)" and ne: "r \<noteq> src" "r \<noteq> snk" for r
  proof -
    have "router_storage ?m ! r \<in> set (router_storage ?m)" using r by simp
    with rest obtain rid where rid: "convert_router_id ?m (router_user_id (router_storage ?m ! r)) = Some rid"
        "rid \<noteq> src \<and> rid \<noteq> snk \<longrightarrow> continuity_encoded ?cp ?m ?fv f rid" by blast
    have "rid = r" using rid(1) convert_router_id_index[OF d r] by simp
    then have ce: "continuity_encoded ?cp ?m ?fv f r" using rid(2) ne by simp
    have a: "activated_count ?fv \<sigma> f (?in r) \<le> 1"
      using h[of "AtMostOne (get_flow_link_vars ?fv [f] (?in r))"] ce
      by (simp add: continuity_encoded_def count_true_flow_vars)
    have c: "activated_count ?fv \<sigma> f (?out r) \<le> 1"
      using h[of "AtMostOne (get_flow_link_vars ?fv [f] (?out r))"] ce
      by (simp add: continuity_encoded_def count_true_flow_vars)
    have "holds \<sigma> (Equality (expr_sum (get_flow_link_vars ?fv [f] (?in r)))
                            (expr_sum (get_flow_link_vars ?fv [f] (?out r))))"
      by (rule h) (use ce in \<open>simp add: continuity_encoded_def\<close>)
    then have "eval_expr \<sigma> (expr_sum (get_flow_link_vars ?fv [f] (?in r)))
                 = eval_expr \<sigma> (expr_sum (get_flow_link_vars ?fv [f] (?out r)))"
      by (simp only: holds.simps)
    then have "int (activated_count ?fv \<sigma> f (?in r)) = int (activated_count ?fv \<sigma> f (?out r))"
      by (simp only: cnt[OF valid_links_incoming] cnt[OF valid_links_outgoing])
    then show ?thesis using a c by simp
  qed
  show ?thesis using sd one_out one_in other by blast
qed

lemma built_valid_endpoints:
  assumes "built ctx res sat" "l < n_links ctx"
  shows "link_source (noc_model (noc_ctx ctx)) l < length (router_storage (noc_model (noc_ctx ctx)))"
    "link_sink (noc_model (noc_ctx ctx)) l < length (router_storage (noc_model (noc_ctx ctx)))"
  using assms unfolding built_def Let_def link_source_def link_sink_def by blast+

subsection \<open>What the continuity constraints guarantee\<close>

text \<open>
  In the model built by \<^verbatim>\<open>noc_sat_route\<close>, when the routers have pairwise distinct user
  ids, every feasible assignment activates, for every traffic flow \<open>f\<close>, exactly one
  outgoing link of the source router of \<open>f\<close>, exactly one incoming link of its sink router,
  and at every other router at most one incoming link, at most one outgoing link, and as
  many incoming as outgoing links.  Nothing is posted on the incoming links of the source
  router, nor on the outgoing links of the sink router.  If the activated links of \<open>f\<close>
  happen to contain no directed cycle, that is, if some ranking of the routers increases
  strictly along every activated link, they are exactly the links of one simple path from
  the source router to the sink router.
\<close>

lemma continuity_counts_and_acyclic_path:
  assumes "build_sat_model ctx visit res = Inr sat"
    and "feasible \<sigma> (sat_cp_model sat)"
    and "f < n_flows ctx"
    and "distinct (map router_user_id (router_storage (noc_model (noc_ctx ctx))))"
  shows "\<exists>src snk. flow_source_router ctx f = Some src \<and> flow_sink_router ctx f = Some snk \<and>
           activated_count (sat_flow_link_vars sat) \<sigma> f
             (get_noc_router_outgoing_links (noc_model (noc_ctx ctx)) src) = 1 \<and>
           activated_count (sat_flow_link_vars sat) \<sigma> f
             (get_noc_router_incoming_links (noc_model (noc_ctx ctx)) snk) = 1 \<and>
           (\<forall>r<length (router_storage (noc_model (noc_ctx ctx))). r \<noteq> src \<and> r \<noteq> snk \<longrightarrow>
              activated_count (sat_flow_link_vars sat) \<sigma> f
                (get_noc_router_incoming_links (noc_model (noc_ctx ctx)) r) \<le> 1 \<and>
              activated_count (sat_flow_link_vars sat) \<sigma> f
                (get_noc_router_outgoing_links (noc_model (noc_ctx ctx)) r) \<le> 1 \<and>
              activated_count (sat_flow_link_vars sat) \<sigma> f
                (get_noc_router_incoming_links (noc_model (noc_ctx ctx)) r)
              = activated_count (sat_flow_link_vars sat) \<sigma> f
                (get_noc_router_outgoing_links (noc_model (noc_ctx ctx)) r)) \<and>
           (\<forall>rank :: nat \<Rightarrow> nat.
              (\<forall>l\<in>set (activated_links (noc_model (noc_ctx ctx)) (sat_flow_link_vars sat) \<sigma> f).
                 rank (link_source (noc_model (noc_ctx ctx)) l)
                   < rank (link_sink (noc_model (noc_ctx ctx)) l)) \<longrightarrow>
              (\<exists>p. simple_path (noc_model (noc_ctx ctx)) p \<and>
                   link_source (noc_model (noc_ctx ctx)) (hd p) = src \<and>
                   link_sink (noc_model (noc_ctx ctx)) (last p) = snk \<and>
                   set p = set (activated_links (noc_model (noc_ctx ctx))
                                  (sat_flow_link_vars sat) \<sigma> f)))"
proof -
  let ?fv = "sat_flow_link_vars sat" and ?m = "noc_model (noc_ctx ctx)"
  let ?A = "set (activated_links ?m ?fv \<sigma> f)"
  let ?out = "get_noc_router_outgoing_links ?m" and ?in = "get_noc_router_incoming_links ?m"
  have b: "built ctx res sat" by (rule build_sat_model_built[OF assms(1)])
  from built_continuity_counts[OF b assms(2,3,4)]
  obtain src snk where sd: "flow_source_router ctx f = Some src" "flow_sink_router ctx f = Some snk"
    and o: "activated_count ?fv \<sigma> f (?out src) = 1"
    and i: "activated_count ?fv \<sigma> f (?in snk) = 1"
    and rest: "\<forall>r<length (router_storage ?m). r \<noteq> src \<and> r \<noteq> snk \<longrightarrow>
                 activated_count ?fv \<sigma> f (?in r) \<le> 1 \<and> activated_count ?fv \<sigma> f (?out r) \<le> 1 \<and>
                 activated_count ?fv \<sigma> f (?in r) = activated_count ?fv \<sigma> f (?out r)"
    by blast
  have valid: "l < length (link_storage ?m) \<and> link_source ?m l < length (router_storage ?m) \<and>
               link_sink ?m l < length (router_storage ?m)" if "l \<in> ?A" for l
  proof -
    have "l < n_links ctx"
      using that by (simp add: activated_links_def get_noc_link_keys_def n_links_def)
    then show ?thesis using built_valid_endpoints[OF b] by (simp add: n_links_def)
  qed
  have g: "continuity_graph ?m ?A src snk"
    unfolding continuity_graph_def
    using valid o i rest by (simp add: activated_outgoing_card activated_incoming_card)
  have path: "\<exists>p. simple_path ?m p \<and> link_source ?m (hd p) = src \<and>
                   link_sink ?m (last p) = snk \<and> set p = ?A"
    if "\<forall>l\<in>?A. rank (link_source ?m l) < rank (link_sink ?m l)" for rank :: "nat \<Rightarrow> nat"
    by (rule continuity_graph_path[OF g that])
  show ?thesis using sd o i rest path by blast
qed

subsection \<open>Continuity (C1)\<close>


subsection \<open>Bounds on binary64 rounding\<close>

lemma pow2_pos [simp]: "0 < pow2 e"
  by (simp add: pow2_def)

lemma pow2_nonneg [simp]: "0 \<le> pow2 e"
  by (simp add: pow2_def)

lemma pow2_nonzero [simp]: "pow2 e \<noteq> 0"
  by (simp add: pow2_def)

lemma pow2_Suc: "pow2 (e + 1) = 2 * pow2 e"
proof (cases "0 \<le> e")
  case True
  then show ?thesis by (simp add: pow2_def nat_add_distrib)
next
  case False
  then have "nat (- e) = Suc (nat (- (e + 1)))" by simp
  then show ?thesis using False by (simp add: pow2_def)
qed

lemma pow2_mono: "a \<le> b \<Longrightarrow> pow2 a \<le> pow2 b"
proof -
  have "pow2 (a + int n) \<ge> pow2 a" for n
  proof (induction n)
    case 0
    then show ?case by simp
  next
    case (Suc n)
    have "a + int (Suc n) = a + int n + 1" by simp
    then have "pow2 (a + int (Suc n)) = 2 * pow2 (a + int n)"
      using pow2_Suc[of "a + int n"] by (simp only:)
    then show ?case using Suc pow2_pos[of "a + int n"] by linarith
  qed
  moreover assume "a \<le> b"
  then have "b = a + int (nat (b - a))" by simp
  ultimately show ?thesis by metis
qed

lemma exponent_up_below:
  "1 \<le> x \<Longrightarrow> pow2 (exponent_up fuel x e - e) \<le> x"
proof (induction fuel arbitrary: x e)
  case 0
  then show ?case by (simp add: pow2_def)
next
  case (Suc fuel)
  show ?case
  proof (cases "x < 2")
    case True
    then show ?thesis using Suc.prems by (simp add: pow2_def)
  next
    case False
    then have "pow2 (exponent_up fuel (x / 2) (e + 1) - (e + 1)) \<le> x / 2"
      by (intro Suc.IH) simp
    moreover have "pow2 (exponent_up fuel (x / 2) (e + 1) - e)
                     = 2 * pow2 (exponent_up fuel (x / 2) (e + 1) - (e + 1))"
      using pow2_Suc[of "exponent_up fuel (x / 2) (e + 1) - (e + 1)"] by simp
    ultimately show ?thesis using False by simp
  qed
qed

lemma exponent_down_below:
  "0 < x \<Longrightarrow> exponent_down fuel x e = e - int fuel \<or> pow2 (exponent_down fuel x e - e) \<le> x"
proof (induction fuel arbitrary: x e)
  case 0
  then show ?case by simp
next
  case (Suc fuel)
  show ?case
  proof (cases "1 \<le> x")
    case True
    then show ?thesis by (simp add: pow2_def)
  next
    case False
    have "exponent_down fuel (2 * x) (e - 1) = e - 1 - int fuel \<or>
          pow2 (exponent_down fuel (2 * x) (e - 1) - (e - 1)) \<le> 2 * x"
      by (intro Suc.IH) (use Suc.prems in simp)
    moreover have "pow2 (exponent_down fuel (2 * x) (e - 1) - (e - 1))
                     = 2 * pow2 (exponent_down fuel (2 * x) (e - 1) - e)"
      using pow2_Suc[of "exponent_down fuel (2 * x) (e - 1) - e"] by (simp add: algebra_simps)
    ultimately show ?thesis using False by auto
  qed
qed

lemma exponent_down_le: "exponent_down fuel x e \<le> e"
proof (induction fuel arbitrary: x e)
  case 0
  then show ?case by simp
next
  case (Suc fuel)
  show ?case using Suc.IH[of "2 * x" "e - 1"] by simp
qed

lemma exponent_down_less: "x < 1 \<Longrightarrow> exponent_down (Suc fuel) x e \<le> e - 1"
  using exponent_down_le[of fuel "2 * x" "e - 1"] by simp

text \<open>The exponent of a positive number is that of its binade, or the least exponent.\<close>

lemma binary64_exponent_below:
  assumes "0 < x"
  shows "binary64_exponent x = - 1022 \<or> pow2 (binary64_exponent x) \<le> x"
proof (cases "1 \<le> x")
  case True
  then show ?thesis
    using exponent_up_below[of x 1024 0] assms by (simp add: binary64_exponent_def)
next
  case False
  then show ?thesis
    using exponent_down_below[of x 1022 0] assms by (simp add: binary64_exponent_def)
qed

lemma binary64_exponent_small:
  assumes "0 < x" "x < 1"
  shows "binary64_exponent x \<le> - 1"
proof -
  have "exponent_down (Suc 1021) x 0 \<le> 0 - 1" by (rule exponent_down_less[OF assms(2)])
  then show ?thesis using assms by (simp add: binary64_exponent_def)
qed

lemma round_half_even_near:
  "of_int (round_half_even q) \<le> q + 1 / 2" "q - 1 / 2 \<le> of_int (round_half_even q)"
proof -
  have f: "of_int \<lfloor>q\<rfloor> \<le> q" "q < of_int \<lfloor>q\<rfloor> + 1" by linarith+
  show "of_int (round_half_even q) \<le> q + 1 / 2"
    unfolding round_half_even_def using f by (simp split: if_splits) linarith
  show "q - 1 / 2 \<le> of_int (round_half_even q)"
    unfolding round_half_even_def using f by (simp split: if_splits) linarith
qed

lemma round_half_even_nonneg: "0 \<le> q \<Longrightarrow> 0 \<le> round_half_even q"
  by (auto simp: round_half_even_def)

lemma round_binary64_nonneg: "0 \<le> x \<Longrightarrow> 0 \<le> round_binary64 x"
proof -
  assume x: "0 \<le> x"
  let ?u = "pow2 (binary64_exponent x - 52)"
  have "0 \<le> x / ?u" using x pow2_pos[of "binary64_exponent x - 52"] by simp
  then have "0 \<le> real_of_int (round_half_even (x / ?u))"
    using round_half_even_nonneg by simp
  then have "0 \<le> real_of_int (round_half_even (x / ?u)) * ?u"
    using pow2_pos[of "binary64_exponent x - 52"] by simp
  then show ?thesis by (simp add: round_binary64_def)
qed

lemma round_binary64_upper:
  assumes "0 < x"
  shows "round_binary64 x \<le> x + pow2 (binary64_exponent x - 52) / 2"
proof -
  let ?u = "pow2 (binary64_exponent x - 52)"
  have "of_int (round_half_even (x / ?u)) \<le> x / ?u + 1 / 2" by (rule round_half_even_near)
  then have "of_int (round_half_even (x / ?u)) * ?u \<le> (x / ?u + 1 / 2) * ?u"
    by (rule mult_right_mono) (simp add: less_imp_le)
  moreover have "?u \<noteq> 0" using pow2_pos[of "binary64_exponent x - 52"] by simp
  then have "(x / ?u + 1 / 2) * ?u = x + ?u / 2"
    by (simp add: field_simps)
  ultimately show ?thesis using assms by (simp add: round_binary64_def)
qed

lemma pow2_minus_52: "pow2 (e - 52) = pow2 e / 2 ^ 52"
proof -
  have "pow2 (e - 52 + int n) = pow2 (e - 52) * 2 ^ n" for n
  proof (induction n)
    case 0
    then show ?case by simp
  next
    case (Suc n)
    have "e - 52 + int (Suc n) = e - 52 + int n + 1" by simp
    then have "pow2 (e - 52 + int (Suc n)) = 2 * pow2 (e - 52 + int n)"
      using pow2_Suc[of "e - 52 + int n"] by (simp only:)
    then show ?case using Suc by simp
  qed
  from this[of 52] show ?thesis by simp
qed

text \<open>Rounding a positive number raises it by at most the relative error \<open>2^-53\<close>, or by
  \<open>2^-1075\<close> below the normal range.\<close>

lemma round_binary64_relative:
  assumes "0 < x"
  shows "round_binary64 x \<le> x * (1 + 1 / 2 ^ 53) + 1 / 2 ^ 1075"
proof -
  let ?e = "binary64_exponent x"
  note up = round_binary64_upper[OF assms]
  have half: "pow2 (?e - 52) / 2 = pow2 ?e / 2 ^ 53" by (simp add: pow2_minus_52)
  from binary64_exponent_below[OF assms] show ?thesis
  proof
    assume e: "?e = - 1022"
    have "pow2 (- 1022) / 2 ^ 53 = 1 / 2 ^ 1075"
      by (simp add: pow2_def power_add[symmetric])
    then have "round_binary64 x \<le> x + 1 / 2 ^ 1075" using up half e by simp
    moreover have "0 \<le> x * (1 / 2 ^ 53)" using assms by simp
    ultimately show ?thesis by (simp add: algebra_simps)
  next
    assume "pow2 ?e \<le> x"
    then have "pow2 ?e / 2 ^ 53 \<le> x / 2 ^ 53" by (simp add: divide_right_mono)
    then have "round_binary64 x \<le> x + x / 2 ^ 53" using up half by simp
    then show ?thesis by (simp add: algebra_simps)
  qed
qed

text \<open>A positive number below \<open>1 - 2^-54\<close> is not rounded up to \<open>1\<close>.\<close>

lemma round_binary64_below_one:
  assumes "0 < x" "x < 1 - 1 / 2 ^ 54"
  shows "round_binary64 x < 1"
proof -
  have "x < 1" using assms(2) by (smt (verit) divide_pos_pos zero_less_numeral zero_less_one zero_less_power)
  from binary64_exponent_small[OF assms(1) this]
  have "pow2 (binary64_exponent x - 52) \<le> pow2 (- 53)" by (intro pow2_mono) simp
  moreover have "pow2 (- 53) = 1 / 2 ^ 53" by (simp add: pow2_def)
  ultimately have "pow2 (binary64_exponent x - 52) / 2 \<le> 1 / 2 ^ 54" by simp
  then show ?thesis using round_binary64_upper[OF assms(1)] assms(2) by linarith
qed

subsection \<open>The rescaled bandwidths and the sums that use them\<close>

lemma rescale_loop_entries:
  "rescale_loop link_bw res flows = Inr bws \<Longrightarrow>
   length bws = length flows \<and>
   (\<forall>i<length flows.
      floor_to_int (double_mul (double_div (Finite (traffic_flow_bandwidth (flows ! i)))
                                           (Finite link_bw))
                               (Finite (real_of_int res))) = Inr (bws ! i))"
proof (induction flows arbitrary: bws)
  case Nil
  then show ?case by simp
next
  case (Cons fl flows)
  from Cons.prems obtain n rest where
      n: "floor_to_int (double_mul (double_div (Finite (traffic_flow_bandwidth fl)) (Finite link_bw))
                                   (Finite (real_of_int res))) = Inr n"
    and rest: "rescale_loop link_bw res flows = Inr rest" and bws: "bws = n # rest"
    by (auto split: sum.splits)
  note ih = Cons.IH[OF rest]
  have "floor_to_int (double_mul (double_div (Finite (traffic_flow_bandwidth ((fl # flows) ! i)))
                                             (Finite link_bw))
                                 (Finite (real_of_int res))) = Inr (bws ! i)"
    if "i < length (fl # flows)" for i
  proof (cases i)
    case 0
    then show ?thesis using n bws by simp
  next
    case (Suc j)
    then show ?thesis using ih that bws by simp
  qed
  then show ?case using ih bws by simp
qed

lemma rescale_traffic_flow_bandwidths_entries:
  assumes "rescale_traffic_flow_bandwidths ctx res = Inr bws"
  shows "length bws = n_flows ctx"
    "f < n_flows ctx \<Longrightarrow> \<exists>x. scaled_demand ctx res f = Finite x \<and> bws ! f = \<lfloor>x\<rfloor>"
proof -
  note e = rescale_loop_entries[OF assms[unfolded rescale_traffic_flow_bandwidths_def]]
  show "length bws = n_flows ctx" using e by (simp add: n_flows_def)
  assume "f < n_flows ctx"
  then have "floor_to_int (scaled_demand ctx res f) = Inr (bws ! f)"
    using e by (simp add: n_flows_def scaled_demand_def flow_bandwidth_def
                  get_single_noc_traffic_flow_def)
  from floor_to_int_result[OF this]
  show "\<exists>x. scaled_demand ctx res f = Finite x \<and> bws ! f = \<lfloor>x\<rfloor>" .
qed

lemma eval_agg_bw_aux:
  "eval_expr \<sigma> (foldl (\<lambda>e key. case fv key of
                                   None \<Rightarrow> e
                                 | Some var \<Rightarrow> expr_add e (expr_term var (bws ! fst key))) e0 keys)
     = eval_expr \<sigma> e0 + bandwidth_usage bws fv \<sigma> keys"
proof (induction keys arbitrary: e0)
  case Nil
  then show ?case by (simp add: bandwidth_usage_def)
next
  case (Cons k keys)
  show ?case
    by (cases "fv k") (simp_all add: Cons.IH bandwidth_usage_def flow_link_value_def)
qed

lemma eval_agg_bw_expr:
  "eval_expr \<sigma> (agg_bw_expr_of bws fv keys) = bandwidth_usage bws fv \<sigma> keys"
  by (simp add: agg_bw_expr_of_def eval_agg_bw_aux)

lemma link_load_without:
  "bws ! f = 0 \<Longrightarrow> link_load bws fv \<sigma> fs l = link_load bws fv \<sigma> (removeAll f fs) l"
  by (induction fs) (auto simp: link_load_def)

lemma bandwidth_usage_without:
  "bws ! f = 0 \<Longrightarrow>
   bandwidth_usage bws fv \<sigma> keys = bandwidth_usage bws fv \<sigma> (filter (\<lambda>k. fst k \<noteq> f) keys)"
  by (induction keys) (auto simp: bandwidth_usage_def)

lemma build_sat_model_objective:
  assumes "build_sat_model ctx visit res = Inr sat"
  shows "\<exists>bws. rescale_traffic_flow_bandwidths ctx res = Inr bws \<and>
           objective (sat_cp_model sat) =
             Some (expr_add
                     (expr_add (latency_overrun_sum_of (sat_latency_overrun_vars sat))
                               (agg_bw_expr_of bws (sat_flow_link_vars sat)
                                  (visit (sat_flow_link_vars sat))))
                     (expr_scale (1024 * 16) (expr_sum (sat_link_congested_vars sat))))"
  using assms unfolding build_sat_model_def
  by (auto simp: Let_def Minimize_def split: prod.splits sum.splits)

lemma built_congestion_sums:
  assumes "built ctx res sat" "rescale_traffic_flow_bandwidths ctx res = Inr bws" "l < n_links ctx"
  shows "\<exists>lhs. congestion_encoded (sat_cp_model sat) res (sat_link_congested_vars sat ! l) lhs \<and>
               (\<forall>\<sigma>. eval_expr \<sigma> lhs = link_load bws (sat_flow_link_vars sat) \<sigma> [0..<n_flows ctx] l)"
  using assms unfolding built_def Let_def by fastforce

lemma line_ring_coarse_model:
  "build_sat_model (line_ring_flow_ctx (1 / 4) 1) key_order 3 = Inr (line_ring_sat_scaled 0 3)"
  by (simp add: sat_routing_defs binary64_defs line_ring_flow_ctx_def line_ring_storage_def
      key_order_def line_ring_sat_scaled_def line_ring_cp_scaled_def Let_def
      upt_rec[of _ "numeral _"] numeral_2_eq_2)

lemma line_ring_rounded_model:
  "build_sat_model (line_ring_flow_ctx (1 - 1 / 2 ^ 53) 3) key_order 3
     = Inr (line_ring_sat_scaled 1 3)"
  by (simp add: sat_routing_defs binary64_defs line_ring_flow_ctx_def line_ring_storage_def
      key_order_def line_ring_sat_scaled_def line_ring_cp_scaled_def Let_def
      upt_rec[of _ "numeral _"] numeral_2_eq_2)

lemma line_ring_flow_sizes [simp]:
  "n_flows (line_ring_flow_ctx d b) = 1" "n_links (line_ring_flow_ctx d b) = 3"
  by (simp_all add: n_flows_def n_links_def line_ring_flow_ctx_def line_ring_storage_def)

subsection \<open>Rescaled bandwidth (C10)\<close>

lemma to_double_small:
  assumes "0 \<le> x" "x < 1 - 1 / 2 ^ 54"
  shows "\<exists>y. to_double x = Finite y \<and> 0 \<le> y \<and> y < 1"
proof (cases "x = 0")
  case True
  then show ?thesis by (simp add: to_double_def round_binary64_def)
next
  case False
  then have pos: "0 < x" using assms(1) by simp
  have lt: "round_binary64 x < 1" by (rule round_binary64_below_one[OF pos assms(2)])
  have ge: "0 \<le> round_binary64 x" by (rule round_binary64_nonneg[OF assms(1)])
  have "abs (round_binary64 x) < 1" using lt ge by simp
  moreover have "(1::real) \<le> 2 ^ 1024" by simp
  ultimately have "abs (round_binary64 x) < 2 ^ 1024" by (rule less_le_trans)
  then show ?thesis using lt ge by (simp only: to_double_def if_True) blast
qed

lemma rounding_margin:
  "(1 - 1 / 2 ^ 51) * (1 + 1 / 2 ^ 53) + 2147483647 / 2 ^ 1075 < (1::real) - 1 / 2 ^ 54"
  by simp

lemma scaled_demand_small:
  assumes b: "0 \<le> b" and l: "0 < link_bw" and r: "0 < res" "res \<le> 2147483647"
    and small: "b * real_of_int res \<le> (1 - 1 / 2 ^ 51) * link_bw"
  shows "\<exists>x. double_mul (double_div (Finite b) (Finite link_bw)) (Finite (real_of_int res))
               = Finite x \<and> 0 \<le> x \<and> x < 1"
proof -
  define t where "t = b / link_bw"
  define rr where "rr = real_of_int res"
  define q where "q = round_binary64 t"
  define eps :: real where "eps = 1 / 2 ^ 53"
  define d :: real where "d = 1 / 2 ^ 1075"
  define c :: real where "c = 1 - 1 / 2 ^ 51"
  have eps0: "0 \<le> eps" and d0: "0 \<le> d" and c1: "c \<le> 1" and c0: "0 \<le> c"
    by (simp_all add: eps_def d_def c_def)
  have margin: "c * (1 + eps) + 2147483647 * d < 1 - 1 / 2 ^ 54"
    using rounding_margin by (simp add: c_def eps_def d_def)
  have r1: "1 \<le> rr" and r31: "rr \<le> 2147483647" using r by (simp_all add: rr_def)
  have t0: "0 \<le> t" using b l by (simp add: t_def)
  have tr: "t * rr \<le> c"
  proof -
    have "b * rr / link_bw \<le> c * link_bw / link_bw"
      using small l unfolding rr_def c_def by (intro divide_right_mono) simp_all
    then show ?thesis using l by (simp add: t_def)
  qed
  have t1: "t \<le> 1"
  proof -
    have "t * 1 \<le> t * rr" using t0 r1 by (intro mult_left_mono)
    then show ?thesis using tr c1 by linarith
  qed
  have q0: "0 \<le> q" unfolding q_def by (rule round_binary64_nonneg[OF t0])
  have qb: "q \<le> t * (1 + eps) + d"
  proof (cases "t = 0")
    case True
    have "round_binary64 0 = 0" by (simp add: round_binary64_def)
    then have "q = 0" by (simp only: q_def True)
    then show ?thesis using True d0 by simp
  next
    case False
    then have "0 < t" using t0 by linarith
    then show ?thesis unfolding q_def eps_def d_def by (rule round_binary64_relative)
  qed
  have "t * (1 + eps) \<le> 1 * (1 + eps)"
    using t1 eps0 by (intro mult_right_mono) linarith+
  then have te: "t * (1 + eps) \<le> 1 + eps" by simp
  have "d \<le> 1" by (simp add: d_def)
  moreover have "eps \<le> 1" by (simp add: eps_def)
  ultimately have "q \<le> 3" using qb te by linarith
  moreover have "(3::real) < 2 ^ 1024" by simp
  ultimately have "q < 2 ^ 1024" by (rule le_less_trans)
  then have "abs q < 2 ^ 1024" using q0 by (simp only: abs_of_nonneg)
  then have "to_double t = Finite q" by (simp only: to_double_def q_def if_True)
  moreover have "link_bw \<noteq> 0" using l by simp
  ultimately have dv: "double_div (Finite b) (Finite link_bw) = Finite q"
    by (simp add: t_def)
  have p0: "0 \<le> q * rr" using q0 r1 by simp
  have "q * rr \<le> (t * (1 + eps) + d) * rr"
    using qb r1 by (intro mult_right_mono) linarith+
  also have "\<dots> = (t * rr) * (1 + eps) + rr * d"
    by (simp add: algebra_simps)
  also have "\<dots> \<le> c * (1 + eps) + 2147483647 * d"
  proof (rule add_mono)
    show "(t * rr) * (1 + eps) \<le> c * (1 + eps)"
      using tr eps0 by (intro mult_right_mono) linarith+
    show "rr * d \<le> 2147483647 * d"
      using r31 d0 by (intro mult_right_mono)
  qed
  also have "\<dots> < 1 - 1 / 2 ^ 54" by (rule margin)
  finally have p1: "q * rr < 1 - 1 / 2 ^ 54" .
  from to_double_small[OF p0 p1]
  obtain y where y: "to_double (q * rr) = Finite y" "0 \<le> y" "y < 1" by blast
  have "double_mul (double_div (Finite b) (Finite link_bw)) (Finite (real_of_int res))
          = to_double (q * rr)"
    unfolding dv rr_def by (simp only: double_mul.simps)
  then show ?thesis using y by (simp only:) blast
qed

text \<open>
  Claim C10 (as amended).  In the model built by \<^verbatim>\<open>noc_sat_route\<close>, the rescaled bandwidth
  of every traffic flow \<open>f\<close> is the floor of
  \<open>(flow_bandwidth / link_bandwidth) * bandwidth_resolution\<close> as binary64 arithmetic
  computes it, the quotient and the product each rounded; the congestion sum of every link
  and the bandwidth term of the objective weigh the flow-link variables of \<open>f\<close> with this
  number.  The rescaled bandwidth is \<open>0\<close> exactly when the computed product is at least \<open>0\<close>
  and strictly below \<open>1\<close>.  This is so for every non-negative demand with
  \<open>flow_bandwidth * bandwidth_resolution \<le> (1 - 2^-51) * link_bandwidth\<close>, the link bandwidth
  and the resolution being positive; a demand closer to
  \<open>link_bandwidth / bandwidth_resolution\<close> can be rounded up to the rescaled bandwidth \<open>1\<close>.
  A flow whose rescaled bandwidth is \<open>0\<close> adds nothing to the congestion sum of any link
  nor to the bandwidth term of the objective.
\<close>

theorem rescaled_bandwidth_is_floor:
  assumes "build_sat_model ctx visit res = Inr sat"
    and "f < n_flows ctx"
  shows "\<exists>bws x. rescale_traffic_flow_bandwidths ctx res = Inr bws \<and> length bws = n_flows ctx \<and>
           scaled_demand ctx res f = Finite x \<and> bws ! f = \<lfloor>x\<rfloor> \<and>
           (\<forall>l<n_links ctx. \<exists>lhs.
              congestion_encoded (sat_cp_model sat) res (sat_link_congested_vars sat ! l) lhs \<and>
              (\<forall>\<sigma>. eval_expr \<sigma> lhs
                     = link_load bws (sat_flow_link_vars sat) \<sigma> [0..<n_flows ctx] l)) \<and>
           (\<exists>e. objective (sat_cp_model sat) =
                   Some (expr_add
                           (expr_add (latency_overrun_sum_of (sat_latency_overrun_vars sat)) e)
                           (expr_scale (1024 * 16) (expr_sum (sat_link_congested_vars sat)))) \<and>
                (\<forall>\<sigma>. eval_expr \<sigma> e
                       = bandwidth_usage bws (sat_flow_link_vars sat) \<sigma>
                           (visit (sat_flow_link_vars sat)))) \<and>
           ((bws ! f = 0) = (0 \<le> x \<and> x < 1)) \<and>
           (0 \<le> flow_bandwidth ctx f \<and> 0 < storage_link_bandwidth (noc_model (noc_ctx ctx)) \<and>
            0 < res \<and> res \<le> 2147483647 \<and>
            flow_bandwidth ctx f * real_of_int res
              \<le> (1 - 1 / 2 ^ 51) * storage_link_bandwidth (noc_model (noc_ctx ctx))
              \<longrightarrow> bws ! f = 0) \<and>
           (bws ! f = 0 \<longrightarrow>
              (\<forall>\<sigma> l. link_load bws (sat_flow_link_vars sat) \<sigma> [0..<n_flows ctx] l
                       = link_load bws (sat_flow_link_vars sat) \<sigma>
                           (removeAll f [0..<n_flows ctx]) l) \<and>
              (\<forall>\<sigma>. bandwidth_usage bws (sat_flow_link_vars sat) \<sigma> (visit (sat_flow_link_vars sat))
                     = bandwidth_usage bws (sat_flow_link_vars sat) \<sigma>
                         (filter (\<lambda>k. fst k \<noteq> f) (visit (sat_flow_link_vars sat)))))"
proof -
  let ?fv = "sat_flow_link_vars sat" and ?L = "storage_link_bandwidth (noc_model (noc_ctx ctx))"
  have b: "built ctx res sat" by (rule build_sat_model_built[OF assms(1)])
  from build_sat_model_objective[OF assms(1)]
  obtain bws where r: "rescale_traffic_flow_bandwidths ctx res = Inr bws"
    and obj: "objective (sat_cp_model sat) =
             Some (expr_add
                     (expr_add (latency_overrun_sum_of (sat_latency_overrun_vars sat))
                               (agg_bw_expr_of bws ?fv (visit ?fv)))
                     (expr_scale (1024 * 16) (expr_sum (sat_link_congested_vars sat))))"
    by blast
  note e = rescale_traffic_flow_bandwidths_entries[OF r]
  from e(2)[OF assms(2)] obtain x where x: "scaled_demand ctx res f = Finite x"
    and fl: "bws ! f = \<lfloor>x\<rfloor>" by blast
  have cong: "\<forall>l<n_links ctx. \<exists>lhs.
              congestion_encoded (sat_cp_model sat) res (sat_link_congested_vars sat ! l) lhs \<and>
              (\<forall>\<sigma>. eval_expr \<sigma> lhs = link_load bws ?fv \<sigma> [0..<n_flows ctx] l)"
    using built_congestion_sums[OF b r] by blast
  have o: "\<exists>e. objective (sat_cp_model sat) =
                   Some (expr_add
                           (expr_add (latency_overrun_sum_of (sat_latency_overrun_vars sat)) e)
                           (expr_scale (1024 * 16) (expr_sum (sat_link_congested_vars sat)))) \<and>
                (\<forall>\<sigma>. eval_expr \<sigma> e = bandwidth_usage bws ?fv \<sigma> (visit ?fv))"
    using obj eval_agg_bw_expr by blast
  have z: "(bws ! f = 0) = (0 \<le> x \<and> x < 1)"
    unfolding fl by (simp add: floor_eq_iff)
  have small: "bws ! f = 0"
    if h: "0 \<le> flow_bandwidth ctx f \<and> 0 < ?L \<and> 0 < res \<and> res \<le> 2147483647 \<and>
           flow_bandwidth ctx f * real_of_int res \<le> (1 - 1 / 2 ^ 51) * ?L"
  proof -
    have "\<exists>y. scaled_demand ctx res f = Finite y \<and> 0 \<le> y \<and> y < 1"
      unfolding scaled_demand_def by (rule scaled_demand_small) (use h in simp_all)
    then show ?thesis using x z by auto
  qed
  have none: "(\<forall>\<sigma> l. link_load bws ?fv \<sigma> [0..<n_flows ctx] l
                       = link_load bws ?fv \<sigma> (removeAll f [0..<n_flows ctx]) l) \<and>
              (\<forall>\<sigma>. bandwidth_usage bws ?fv \<sigma> (visit ?fv)
                     = bandwidth_usage bws ?fv \<sigma> (filter (\<lambda>k. fst k \<noteq> f) (visit ?fv)))"
    if "bws ! f = 0"
    using link_load_without[OF that] bandwidth_usage_without[OF that] by blast
  show ?thesis
    using r e(1) x fl cong o z small none by blast
qed

theorem rescaled_bandwidth_is_floor_witness:
  "build_sat_model (line_ring_flow_ctx (1 / 4) 1) key_order 3 = Inr (line_ring_sat_scaled 0 3) \<and>
   0 < n_flows (line_ring_flow_ctx (1 / 4) 1) \<and>
   scaled_demand (line_ring_flow_ctx (1 / 4) 1) 3 0 = Finite (3 / 4) \<and>
   rescale_traffic_flow_bandwidths (line_ring_flow_ctx (1 / 4) 1) 3 = Inr [0] \<and>
   link_load [0] (sat_flow_link_vars (line_ring_sat_scaled 0 3)) cycle_assignment
     [0..<n_flows (line_ring_flow_ctx (1 / 4) 1)] 0
   = link_load [0] (sat_flow_link_vars (line_ring_sat_scaled 0 3)) cycle_assignment [] 0"
proof -
  let ?ctx = "line_ring_flow_ctx (1 / 4) 1"
  have f: "0 < n_flows ?ctx" by simp
  have d: "scaled_demand ?ctx 3 0 = Finite (3 / 4)"
    by (simp add: scaled_demand_def flow_bandwidth_def get_single_noc_traffic_flow_def
        binary64_defs line_ring_flow_ctx_def line_ring_storage_def)
  have r: "rescale_traffic_flow_bandwidths ?ctx 3 = Inr [0]"
    by (simp add: rescale_traffic_flow_bandwidths_def binary64_defs line_ring_flow_ctx_def
        line_ring_storage_def)
  from rescaled_bandwidth_is_floor[OF line_ring_coarse_model f]
  obtain bws where a: "rescale_traffic_flow_bandwidths ?ctx 3 = Inr bws"
    and c: "bws ! 0 = 0 \<longrightarrow>
              (\<forall>\<sigma> l. link_load bws (sat_flow_link_vars (line_ring_sat_scaled 0 3)) \<sigma>
                        [0..<n_flows ?ctx] l
                     = link_load bws (sat_flow_link_vars (line_ring_sat_scaled 0 3)) \<sigma>
                        (removeAll 0 [0..<n_flows ?ctx]) l)"
    by blast
  have "bws = [0]" using a r by simp
  then have "link_load [0] (sat_flow_link_vars (line_ring_sat_scaled 0 3)) cycle_assignment
          [0..<n_flows ?ctx] 0
        = link_load [0] (sat_flow_link_vars (line_ring_sat_scaled 0 3)) cycle_assignment
            (removeAll 0 [0..<n_flows ?ctx]) 0"
    using c by simp
  then show ?thesis using line_ring_coarse_model f d r by simp
qed

text \<open>
  A demand below \<open>link_bandwidth / bandwidth_resolution\<close> need not rescale to \<open>0\<close>.  On
  links of bandwidth \<open>3\<close> at resolution \<open>3\<close> the quotient \<open>3 / 3\<close> is \<open>1\<close>; the demand
  \<open>1 - 2^-53\<close>, the largest \<^verbatim>\<open>double\<close> below \<open>1\<close>, has the quotient \<open>6004799503160661 / 2^54\<close>
  (the \<^verbatim>\<open>double\<close> next to one third), whose product with \<open>3\<close> lies half-way between
  \<open>1 - 2^-53\<close> and \<open>1\<close> and is rounded to \<open>1\<close>.  The rescaled bandwidth is \<open>1\<close>, and the flow
  adds \<open>1\<close> to the congestion sum of the link it uses.
\<close>

theorem rescaled_bandwidth_rounded_up_counterexample:
  "build_sat_model (line_ring_flow_ctx (1 - 1 / 2 ^ 53) 3) key_order 3
     = Inr (line_ring_sat_scaled 1 3) \<and>
   0 \<le> flow_bandwidth (line_ring_flow_ctx (1 - 1 / 2 ^ 53) 3) 0 \<and>
   double_div (Finite (storage_link_bandwidth
                         (noc_model (noc_ctx (line_ring_flow_ctx (1 - 1 / 2 ^ 53) 3)))))
              (Finite (real_of_int 3)) = Finite 1 \<and>
   flow_bandwidth (line_ring_flow_ctx (1 - 1 / 2 ^ 53) 3) 0 < 1 \<and>
   flow_bandwidth (line_ring_flow_ctx (1 - 1 / 2 ^ 53) 3) 0
     < storage_link_bandwidth (noc_model (noc_ctx (line_ring_flow_ctx (1 - 1 / 2 ^ 53) 3)))
       / real_of_int 3 \<and>
   double_div (Finite (flow_bandwidth (line_ring_flow_ctx (1 - 1 / 2 ^ 53) 3) 0))
              (Finite (storage_link_bandwidth
                         (noc_model (noc_ctx (line_ring_flow_ctx (1 - 1 / 2 ^ 53) 3)))))
     = Finite (6004799503160661 / 2 ^ 54) \<and>
   scaled_demand (line_ring_flow_ctx (1 - 1 / 2 ^ 53) 3) 3 0 = Finite 1 \<and>
   rescale_traffic_flow_bandwidths (line_ring_flow_ctx (1 - 1 / 2 ^ 53) 3) 3 = Inr [1] \<and>
   link_load [1] (sat_flow_link_vars (line_ring_sat_scaled 1 3)) path_assignment
     [0..<n_flows (line_ring_flow_ctx (1 - 1 / 2 ^ 53) 3)] 0 = 1"
proof -
  let ?ctx = "line_ring_flow_ctx (1 - 1 / 2 ^ 53) 3"
  have fb: "flow_bandwidth ?ctx 0 = 1 - 1 / 2 ^ 53"
    by (simp add: flow_bandwidth_def get_single_noc_traffic_flow_def line_ring_flow_ctx_def)
  have lb: "storage_link_bandwidth (noc_model (noc_ctx ?ctx)) = 3"
    by (simp add: line_ring_flow_ctx_def)
  have one: "double_div (Finite 3) (Finite (real_of_int 3)) = Finite 1"
    by (simp add: binary64_defs)
  have quo: "double_div (Finite (1 - 1 / 2 ^ 53)) (Finite 3) = Finite (6004799503160661 / 2 ^ 54)"
    by (simp add: binary64_defs)
  have sc: "scaled_demand ?ctx 3 0 = Finite 1"
    unfolding scaled_demand_def fb lb quo by (simp add: binary64_defs)
  have r: "rescale_traffic_flow_bandwidths ?ctx 3 = Inr [1]"
    by (simp add: rescale_traffic_flow_bandwidths_def binary64_defs line_ring_flow_ctx_def
        line_ring_storage_def)
  have load: "link_load [1] (sat_flow_link_vars (line_ring_sat_scaled 1 3)) path_assignment
                [0..<n_flows ?ctx] 0 = 1"
    by (simp add: link_load_def flow_link_value_def line_ring_sat_scaled_def path_assignment_def)
  show ?thesis
    unfolding fb lb using line_ring_rounded_model one quo sc[unfolded fb lb] r load
    by (simp add: fb lb)
qed

end
